theory Spec2Isabelle
  imports Main "HOL-Library.Sublist"
begin

section \<open>Python strings\<close>

text \<open>
  A Python \<^verbatim>\<open>str\<close> is a sequence of Unicode code points; \<^verbatim>\<open>len\<close> counts code
  points. The model takes a string as the list of its code points, each a natural
  number. The merge step only compares characters, so it is kept polymorphic in the
  character type.
\<close>

type_synonym pystr = "nat list"

definition str :: "string \<Rightarrow> pystr" where
  "str s = map of_char s"

text \<open>
  \<^verbatim>\<open>str.isspace\<close> on a single character: the code points Python 3 treats as
  whitespace (\<^verbatim>\<open>str.strip()\<close> without argument removes exactly these).
\<close>

definition py_isspace :: "nat \<Rightarrow> bool" where
  "py_isspace c \<longleftrightarrow>
     (9 \<le> c \<and> c \<le> 13) \<or> (28 \<le> c \<and> c \<le> 32) \<or> c = 133 \<or> c = 160 \<or> c = 5760 \<or>
     (8192 \<le> c \<and> c \<le> 8202) \<or> c = 8232 \<or> c = 8233 \<or> c = 8239 \<or> c = 8287 \<or> c = 12288"

definition py_strip :: "pystr \<Rightarrow> pystr" where
  "py_strip s = rev (dropWhile py_isspace (rev (dropWhile py_isspace s)))"

text \<open>\<^verbatim>\<open>s[-n:]\<close> for \<open>n \<ge> 1\<close>: the last \<open>n\<close> characters, the whole string when
  \<open>n\<close> exceeds its length.\<close>

definition py_suffix :: "nat \<Rightarrow> 'a list \<Rightarrow> 'a list" where
  "py_suffix n xs = drop (length xs - n) xs"

section \<open>The overlap merger: \<^verbatim>\<open>merge_chunks_with_overlap\<close>\<close>

text \<open>
  The inner loop \<^verbatim>\<open>for check_len in range(max_check_len, 0, -1)\<close>: the first
  (largest) \<^verbatim>\<open>check_len\<close> with \<^verbatim>\<open>result[-check_len:] == current_chunk[:check_len]\<close>,
  or \<open>None\<close> when the loop ends without \<^verbatim>\<open>break\<close>.
\<close>

fun find_overlap :: "'a list \<Rightarrow> 'a list \<Rightarrow> nat \<Rightarrow> nat option" where
  "find_overlap result current_chunk 0 = None"
| "find_overlap result current_chunk (Suc n) =
     (if py_suffix (Suc n) result = take (Suc n) current_chunk then Some (Suc n)
      else find_overlap result current_chunk n)"

text \<open>One iteration of the outer loop. A non-positive \<^verbatim>\<open>max_check_len\<close> gives an
  empty range.\<close>

definition merge_step :: "int \<Rightarrow> 'a list \<Rightarrow> 'a list \<Rightarrow> 'a list" where
  "merge_step overlap_chars result current_chunk =
     (let max_check_len =
            min overlap_chars (min (int (length result)) (int (length current_chunk)))
      in case find_overlap result current_chunk (nat max_check_len) of
           Some check_len \<Rightarrow> result @ drop check_len current_chunk
         | None \<Rightarrow> result @ current_chunk)"

fun merge_chunks_with_overlap :: "'a list list \<Rightarrow> int \<Rightarrow> 'a list" where
  "merge_chunks_with_overlap [] overlap_chars = []"
| "merge_chunks_with_overlap [c] overlap_chars = c"
| "merge_chunks_with_overlap (c # cs) overlap_chars = foldl (merge_step overlap_chars) c cs"

section \<open>Reference removal: \<^verbatim>\<open>remove_references_section\<close>\<close>

text \<open>
  \<^verbatim>\<open>re.search(r'REFERENCES', text, re.IGNORECASE)\<close> on a \<^verbatim>\<open>str\<close>. Under
  \<^verbatim>\<open>re.IGNORECASE\<close> a literal upper-case ASCII letter of the pattern matches
  the letter itself, its lower-case form, and the other code points Unicode gives the
  same letter as a case variant: U+017F (long s) for S, U+212A (Kelvin sign) for K,
  U+0130 and U+0131 (dotted and dotless i) for I.
\<close>

definition ignorecase_eq :: "nat \<Rightarrow> nat \<Rightarrow> bool" where
  "ignorecase_eq p c \<longleftrightarrow>
     c = p \<or> c = p + 32 \<or> (p = 83 \<and> c = 383) \<or> (p = 75 \<and> c = 8490) \<or>
     (p = 73 \<and> (c = 304 \<or> c = 305))"

definition REFERENCES :: pystr where
  "REFERENCES = [82, 69, 70, 69, 82, 69, 78, 67, 69, 83]"

text \<open>Does the pattern match at the start of the text?\<close>

fun match_here :: "nat list \<Rightarrow> pystr \<Rightarrow> bool" where
  "match_here [] text = True"
| "match_here (p # ps) [] = False"
| "match_here (p # ps) (c # cs) = (ignorecase_eq p c \<and> match_here ps cs)"

text \<open>\<^verbatim>\<open>re.search(...)\<close>: the start index of the leftmost match, \<open>None\<close> when
  there is no match.\<close>

fun re_search :: "nat list \<Rightarrow> pystr \<Rightarrow> nat option" where
  "re_search pat [] = (if match_here pat [] then Some 0 else None)"
| "re_search pat (c # cs) =
     (if match_here pat (c # cs) then Some 0 else map_option Suc (re_search pat cs))"

definition remove_references_section :: "pystr \<Rightarrow> pystr" where
  "remove_references_section text =
     (case re_search REFERENCES text of
        Some references_pos \<Rightarrow> take references_pos text
      | None \<Rightarrow> text)"

section \<open>Splitting into chunks: \<^verbatim>\<open>split_text_into_chunks\<close>\<close>

text \<open>\<^verbatim>\<open>text.split('\n\n')\<close>: the pieces between successive occurrences of two
  line feeds, found from left to right without overlap. The result is never empty.\<close>

fun py_split_nn :: "pystr \<Rightarrow> pystr list" where
  "py_split_nn [] = [[]]"
| "py_split_nn [c] = [[c]]"
| "py_split_nn (a # b # r) =
     (if a = 10 \<and> b = 10 then [] # py_split_nn r
      else (let ps = py_split_nn (b # r) in (a # hd ps) # tl ps))"

text \<open>
  \<^verbatim>\<open>re.split(r'([.!?\<dots>])', paragraph)\<close> with a capturing group: the pieces
  between the punctuation marks, each followed by the mark that ended it, so the list
  has odd length. The character class of the source holds the full stop, the exclamation
  mark, the question mark and the ideographic full stop U+3002.
\<close>

definition is_terminal :: "nat \<Rightarrow> bool" where
  "is_terminal c \<longleftrightarrow> c = 46 \<or> c = 33 \<or> c = 63 \<or> c = 12290"

fun re_split_punct :: "pystr \<Rightarrow> pystr list" where
  "re_split_punct [] = [[]]"
| "re_split_punct (c # cs) =
     (if is_terminal c then [] # [c] # re_split_punct cs
      else (let ps = re_split_punct cs in (c # hd ps) # tl ps))"

text \<open>The slices \<^verbatim>\<open>xs[0::2]\<close> and \<^verbatim>\<open>xs[1::2]\<close>.\<close>

fun slice_even :: "'a list \<Rightarrow> 'a list" where
  "slice_even [] = []"
| "slice_even [x] = [x]"
| "slice_even (x # y # r) = x # slice_even r"

fun slice_odd :: "'a list \<Rightarrow> 'a list" where
  "slice_odd [] = []"
| "slice_odd [x] = []"
| "slice_odd (x # y # r) = y # slice_odd r"

text \<open>\<^verbatim>\<open>[''.join(i) for i in zip(sentences[0::2], sentences[1::2] + [''])]\<close>\<close>

definition split_sentences :: "pystr \<Rightarrow> pystr list" where
  "split_sentences paragraph =
     (let sentences = re_split_punct paragraph
      in map (\<lambda>(a, b). a @ b) (zip (slice_even sentences) (slice_odd sentences @ [[]])))"

text \<open>The two variables the loops update: the list of finished chunks and the buffer.\<close>

record chunker =
  chunks :: "pystr list"
  current_chunk :: pystr

text \<open>
  The tokenizer is a parameter: \<open>count s\<close> stands for
  \<^verbatim>\<open>len(self.encoding.encode(s))\<close>, a natural number, and is taken to return on
  every string. \<^verbatim>\<open>max_tokens\<close> is a Python integer.

  The body of the inner loop over the sentences of an oversized paragraph.
\<close>

definition sentence_step :: "(pystr \<Rightarrow> nat) \<Rightarrow> int \<Rightarrow> chunker \<Rightarrow> pystr \<Rightarrow> chunker" where
  "sentence_step count max_tokens st sentence =
     (if py_strip sentence = [] then st
      else
        let test_chunk = (if current_chunk st \<noteq> [] then current_chunk st @ sentence
                          else sentence);
            token_count = int (count test_chunk)
        in if token_count \<le> max_tokens then st\<lparr>current_chunk := test_chunk\<rparr>
           else (if current_chunk st \<noteq> []
                 then \<lparr>chunks = chunks st @ [current_chunk st], current_chunk = sentence\<rparr>
                 else st\<lparr>current_chunk := sentence\<rparr>))"

text \<open>The body of the outer loop over the paragraphs.\<close>

definition paragraph_step :: "(pystr \<Rightarrow> nat) \<Rightarrow> int \<Rightarrow> chunker \<Rightarrow> pystr \<Rightarrow> chunker" where
  "paragraph_step count max_tokens st paragraph =
     (if py_strip paragraph = [] then st
      else if int (count paragraph) > max_tokens then
        (let st1 = (if current_chunk st \<noteq> []
                    then \<lparr>chunks = chunks st @ [current_chunk st], current_chunk = []\<rparr>
                    else st)
         in foldl (sentence_step count max_tokens) st1 (split_sentences paragraph))
      else
        let test_chunk = (if current_chunk st \<noteq> []
                          then current_chunk st @ [10, 10] @ paragraph else paragraph);
            token_count = int (count test_chunk)
        in if token_count \<le> max_tokens then st\<lparr>current_chunk := test_chunk\<rparr>
           else (if current_chunk st \<noteq> []
                 then \<lparr>chunks = chunks st @ [current_chunk st], current_chunk = paragraph\<rparr>
                 else st\<lparr>current_chunk := paragraph\<rparr>))"

text \<open>The end of the function: the last buffer is appended when it is not empty.\<close>

definition final_chunks :: "chunker \<Rightarrow> pystr list" where
  "final_chunks st =
     (if current_chunk st \<noteq> [] then chunks st @ [current_chunk st] else chunks st)"

text \<open>
  The chunk assembler: the loop over the paragraphs, started with no chunk and an empty
  buffer, followed by the final append. \<^verbatim>\<open>split_text_into_chunks\<close> runs it on
  \<^verbatim>\<open>text.split('\n\n')\<close>.
\<close>

definition assemble :: "(pystr \<Rightarrow> nat) \<Rightarrow> int \<Rightarrow> pystr list \<Rightarrow> pystr list" where
  "assemble count max_tokens paragraphs =
     final_chunks (foldl (paragraph_step count max_tokens)
                     \<lparr>chunks = [], current_chunk = []\<rparr> paragraphs)"

definition split_text_into_chunks :: "(pystr \<Rightarrow> nat) \<Rightarrow> pystr \<Rightarrow> int \<Rightarrow> pystr list" where
  "split_text_into_chunks count text max_tokens =
     assemble count max_tokens (py_split_nn text)"

section \<open>The pipeline: \<^verbatim>\<open>clean_text_chunk_with_llm\<close> and \<^verbatim>\<open>extract_text_from_pdf\<close>\<close>

text \<open>
  The remote model is an oracle with a state of its own: given its state and the chunk
  it returns the reply, or \<open>None\<close> when the call (or reading the reply) raises, and its
  next state. The chunk reaches the model inside a fixed prompt, which the oracle
  absorbs.
\<close>

type_synonym 's llm = "'s \<Rightarrow> pystr \<Rightarrow> pystr option \<times> 's"

text \<open>The \<^verbatim>\<open>try\<close> returns the stripped reply; the \<^verbatim>\<open>except\<close> returns the chunk
  it was given.\<close>

definition clean_text_chunk_with_llm :: "'s llm \<Rightarrow> 's \<Rightarrow> pystr \<Rightarrow> pystr \<times> 's" where
  "clean_text_chunk_with_llm llm s chunk =
     (case llm s chunk of
        (Some cleaned_text, s') \<Rightarrow> (py_strip cleaned_text, s')
      | (None, s') \<Rightarrow> (chunk, s'))"

text \<open>Step 4 of the pipeline: the loop that cleans every chunk in order.\<close>

fun clean_chunks :: "'s llm \<Rightarrow> 's \<Rightarrow> pystr list \<Rightarrow> pystr list \<times> 's" where
  "clean_chunks llm s [] = ([], s)"
| "clean_chunks llm s (chunk # rest) =
     (case clean_text_chunk_with_llm llm s chunk of
        (cleaned_chunk, s1) \<Rightarrow>
          (case clean_chunks llm s1 rest of
             (cleaned_chunks, s2) \<Rightarrow> (cleaned_chunk # cleaned_chunks, s2)))"

text \<open>
  The pipeline from the extracted text on: \<open>raw_text\<close> is what \<^verbatim>\<open>pdf_to_text\<close>
  returned. The files the source writes on the way do not influence the result and are
  left out. The merge is called with its default \<^verbatim>\<open>overlap_chars = 100\<close>.
\<close>

definition extract_text_from_pdf ::
  "'s llm \<Rightarrow> (pystr \<Rightarrow> nat) \<Rightarrow> 's \<Rightarrow> pystr \<Rightarrow> int \<Rightarrow> pystr \<times> 's" where
  "extract_text_from_pdf llm count s raw_text max_tokens =
     (if raw_text = [] then ([], s)
      else
        let processed_text = remove_references_section raw_text;
            chunks = split_text_into_chunks count processed_text max_tokens
        in case clean_chunks llm s chunks of
             (cleaned_chunks, s') \<Rightarrow> (merge_chunks_with_overlap cleaned_chunks 100, s'))"

section \<open>Notions used to state the properties\<close>

text \<open>The paragraphs the chunking loop does not skip (the boundary splitter).\<close>

definition paragraphs :: "pystr \<Rightarrow> pystr list" where
  "paragraphs text = filter (\<lambda>paragraph. py_strip paragraph \<noteq> []) (py_split_nn text)"

text \<open>\<^verbatim>\<open>sep.join(pieces)\<close>\<close>

fun py_join :: "'a list \<Rightarrow> 'a list list \<Rightarrow> 'a list" where
  "py_join sep [] = []"
| "py_join sep [p] = p"
| "py_join sep (p # q # ps) = p @ sep @ py_join sep (q # ps)"

text \<open>The characters of a string that are not whitespace, in order.\<close>

definition nonws :: "pystr \<Rightarrow> pystr" where
  "nonws s = filter (\<lambda>c. \<not> py_isspace c) s"

text \<open>
  The packing atoms: a paragraph within the budget is one segment, a paragraph over the
  budget contributes its sentences, and blank paragraphs and blank sentences contribute
  nothing.
\<close>

datatype segment = Para pystr | Sent pystr

fun seg_text :: "segment \<Rightarrow> pystr" where
  "seg_text (Para p) = p"
| "seg_text (Sent s) = s"

definition para_segments :: "(pystr \<Rightarrow> nat) \<Rightarrow> int \<Rightarrow> pystr \<Rightarrow> segment list" where
  "para_segments count max_tokens p =
     (if py_strip p = [] then []
      else if int (count p) > max_tokens
        then map Sent (filter (\<lambda>s. py_strip s \<noteq> []) (split_sentences p))
      else [Para p])"

definition segments :: "(pystr \<Rightarrow> nat) \<Rightarrow> int \<Rightarrow> pystr list \<Rightarrow> segment list" where
  "segments count max_tokens ps = concat (map (para_segments count max_tokens) ps)"

text \<open>
  \<open>s\<close> is a sentence the inner loop packs: a non-blank sentence of a non-blank
  paragraph of the text whose count exceeds the budget.
\<close>

definition sentence_of_oversized ::
  "(pystr \<Rightarrow> nat) \<Rightarrow> int \<Rightarrow> pystr \<Rightarrow> pystr \<Rightarrow> bool" where
  "sentence_of_oversized count max_tokens text s \<longleftrightarrow>
     (\<exists>p. p \<in> set (py_split_nn text) \<and> py_strip p \<noteq> [] \<and> int (count p) > max_tokens \<and>
        s \<in> set (split_sentences p) \<and> py_strip s \<noteq> [])"

text \<open>The text of a chunk made of a group of consecutive segments: a paragraph joins
  the text before it with a blank line, a sentence joins it directly.\<close>

fun join_segment :: "pystr \<Rightarrow> segment \<Rightarrow> pystr" where
  "join_segment cur (Para p) = (if cur = [] then p else cur @ [10, 10] @ p)"
| "join_segment cur (Sent s) = (if cur = [] then s else cur @ s)"

definition render :: "segment list \<Rightarrow> pystr" where
  "render g = foldl join_segment [] g"

text \<open>A case-insensitive occurrence of the word at index \<open>i\<close>: the ten characters
  from \<open>i\<close> on are, letter by letter, case variants of \<open>REFERENCES\<close>.\<close>

definition occurs_at :: "pystr \<Rightarrow> nat \<Rightarrow> bool" where
  "occurs_at text i \<longleftrightarrow>
     (\<exists>m rest. length m = 10 \<and> list_all2 ignorecase_eq (str ''REFERENCES'') m \<and>
        i \<le> length text \<and> drop i text = m @ rest)"

text \<open>
  The loop invariant of the chunking loops, over the segments consumed so far: the
  finished chunks are the texts of consecutive non-empty groups of segments, the buffer
  is the text of the last, unfinished group, and every group is within the budget or is
  a single sentence.
\<close>

definition group_ok :: "(pystr \<Rightarrow> nat) \<Rightarrow> int \<Rightarrow> segment list \<Rightarrow> bool" where
  "group_ok count max_tokens g \<longleftrightarrow>
     int (count (render g)) \<le> max_tokens \<or> (\<exists>s. g = [Sent s])"

definition chunk_inv :: "(pystr \<Rightarrow> nat) \<Rightarrow> int \<Rightarrow> chunker \<Rightarrow> segment list \<Rightarrow> bool" where
  "chunk_inv count max_tokens st segs \<longleftrightarrow>
     (\<exists>gs g. chunks st = map render gs \<and> current_chunk st = render g \<and>
        concat gs @ g = segs \<and> [] \<notin> set gs \<and>
        (\<forall>x\<in>set gs. group_ok count max_tokens x) \<and>
        (g = [] \<or> group_ok count max_tokens g))"

text \<open>
  A tokenizer for the examples: one token for the text \<open>A.B.\<close>, one token for any other
  character (greedy, from the left).
\<close>

function count_ab :: "pystr \<Rightarrow> nat" where
  "count_ab [] = 0"
| "count_ab (c # r) =
     (if take 4 (c # r) = [65, 46, 66, 46] then Suc (count_ab (drop 3 r))
      else Suc (count_ab r))"
  by pat_completeness auto
termination
  by (relation "measure length") auto

text \<open>
  What happens to a buffer \<open>cur0\<close> that follows the finished chunks \<open>chunks0\<close>:
  either it is still (the start of) the buffer, or it was emitted, possibly extended, as
  the chunk right after \<open>chunks0\<close>.
\<close>

definition buffer_kept :: "pystr \<Rightarrow> pystr list \<Rightarrow> chunker \<Rightarrow> bool" where
  "buffer_kept cur0 chunks0 st \<longleftrightarrow>
     (chunks st = chunks0 \<and> prefix cur0 (current_chunk st)) \<or>
     (\<exists>c. prefix (chunks0 @ [cur0 @ c]) (chunks st))"

text \<open>The same, for a buffer that is emitted as it is.\<close>

definition buffer_exact :: "pystr \<Rightarrow> pystr list \<Rightarrow> chunker \<Rightarrow> bool" where
  "buffer_exact cur0 chunks0 st \<longleftrightarrow>
     (chunks st = chunks0 \<and> current_chunk st = cur0) \<or> prefix (chunks0 @ [cur0]) (chunks st)"

text \<open>The transform that returns the chunk it is given and has no effect.\<close>

definition identity_llm :: "'s llm" where
  "identity_llm s chunk = (Some chunk, s)"

text \<open>The state of the oracle after it was called on each chunk of a list, in order.\<close>

definition oracle_state :: "'s llm \<Rightarrow> 's \<Rightarrow> pystr list \<Rightarrow> 's" where
  "oracle_state llm s cs = foldl (\<lambda>s c. snd (llm s c)) s cs"

text \<open>
  An oracle for the examples: the call fails on the chunk \<open>ab\<close> and answers \<open>X\<close>
  between two spaces on every other chunk; its state counts the calls.
\<close>

definition llm_fail_ab :: "nat llm" where
  "llm_fail_ab s chunk = (if chunk = str ''ab'' then None else Some (str '' X ''), Suc s)"

text \<open>
  \<^verbatim>\<open>_find_best_overlap\<close>, the helper of the same class that nothing calls: the loop
  \<^verbatim>\<open>for overlap_size in range(max_overlap, 10, -1)\<close> returns the first (longest)
  common part of more than ten characters, and the empty string when there is none.
\<close>

fun best_overlap_from :: "'a list \<Rightarrow> 'a list \<Rightarrow> nat \<Rightarrow> 'a list" where
  "best_overlap_from text1 text2 0 = []"
| "best_overlap_from text1 text2 (Suc n) =
     (if Suc n \<le> 10 then []
      else if py_suffix (Suc n) text1 = take (Suc n) text2 then take (Suc n) text2
      else best_overlap_from text1 text2 n)"

definition find_best_overlap :: "'a list \<Rightarrow> 'a list \<Rightarrow> 'a list" where
  "find_best_overlap text1 text2 =
     best_overlap_from text1 text2 (min (length text1) (length text2))"

section \<open>Properties of the overlap merger\<close>

lemma find_overlap_None:
  "find_overlap r c n = None \<Longrightarrow> 0 < k \<Longrightarrow> k \<le> n \<Longrightarrow> py_suffix k r \<noteq> take k c"
proof (induction n)
  case 0
  then show ?case by simp
next
  case (Suc n)
  then show ?case
    by (cases "k = Suc n") (auto split: if_splits)
qed

lemma find_overlap_Some:
  "find_overlap r c n = Some L \<Longrightarrow>
     0 < L \<and> L \<le> n \<and> py_suffix L r = take L c \<and>
     (\<forall>k. L < k \<and> k \<le> n \<longrightarrow> py_suffix k r \<noteq> take k c)"
proof (induction n)
  case 0
  then show ?case by simp
next
  case (Suc n)
  show ?case
  proof (cases "py_suffix (Suc n) r = take (Suc n) c")
    case True
    with Suc.prems show ?thesis by auto
  next
    case False
    with Suc.prems have "find_overlap r c n = Some L" by simp
    from Suc.IH [OF this] False show ?thesis
      by (auto simp: le_Suc_eq)
  qed
qed

lemma py_suffix_eq_take_iff:
  "k \<le> length r \<Longrightarrow> k \<le> length c \<Longrightarrow> py_suffix k r = take k c \<longleftrightarrow> suffix (take k c) r"
proof
  assume "py_suffix k r = take k c"
  then show "suffix (take k c) r"
    by (metis py_suffix_def suffix_drop)
next
  assume k: "k \<le> length r" "k \<le> length c" and s: "suffix (take k c) r"
  from s obtain p where p: "r = p @ take k c" by (auto simp: suffix_def)
  with k have "length p = length r - k"
    by (metis add_diff_cancel_right' length_append length_take min.absorb2)
  with p show "py_suffix k r = take k c"
    by (metis append_eq_conv_conj py_suffix_def)
qed

lemma merge_cons:
  "merge_chunks_with_overlap (c # cs) ov = foldl (merge_step ov) c cs"
  by (cases cs) simp_all

text \<open>
  Claim C9. For every \<^verbatim>\<open>overlap_chars\<close>, merging the empty chunk sequence gives the
  empty string and merging a one-element sequence gives that chunk unchanged: both are
  early returns, taken before the loop that searches for an overlap.
\<close>

theorem merge_empty_and_single:
  "merge_chunks_with_overlap [] overlap_chars = [] \<and>
   merge_chunks_with_overlap [c] overlap_chars = c"
  by simp

lemma merge_step_longest:
  "\<exists>L. merge_step ov acc chunk = acc @ drop L chunk \<and>
     int L \<le> max 0 (min ov (min (int (length acc)) (int (length chunk)))) \<and>
     (0 < L \<longrightarrow> suffix (take L chunk) acc) \<and>
     (\<forall>k. L < k \<and> int k \<le> min ov (min (int (length acc)) (int (length chunk)))
        \<longrightarrow> \<not> suffix (take k chunk) acc)"
proof -
  define m where "m = nat (min ov (min (int (length acc)) (int (length chunk))))"
  have ml: "m \<le> length acc" "m \<le> length chunk" by (auto simp: m_def)
  show ?thesis
  proof (cases "find_overlap acc chunk m")
    case None
    have "\<not> suffix (take k chunk) acc" if "0 < k" "k \<le> m" for k
      using find_overlap_None [OF None that] ml that py_suffix_eq_take_iff [of k acc chunk] by auto
    moreover have "merge_step ov acc chunk = acc @ drop 0 chunk"
      using None by (simp add: merge_step_def m_def)
    ultimately show ?thesis
      by (intro exI [of _ 0]) (auto simp: m_def)
  next
    case (Some L)
    from find_overlap_Some [OF Some] have L: "0 < L" "L \<le> m" "py_suffix L acc = take L chunk"
      and mx: "\<And>k. L < k \<Longrightarrow> k \<le> m \<Longrightarrow> py_suffix k acc \<noteq> take k chunk" by auto
    have "suffix (take L chunk) acc"
      using L ml py_suffix_eq_take_iff [of L acc chunk] by auto
    moreover have "\<not> suffix (take k chunk) acc" if "L < k" "k \<le> m" for k
      using mx [OF that] ml that py_suffix_eq_take_iff [of k acc chunk] by auto
    moreover have "merge_step ov acc chunk = acc @ drop L chunk"
      using Some by (simp add: merge_step_def m_def)
    ultimately show ?thesis using L
      by (intro exI [of _ L]) (auto simp: m_def)
  qed
qed

lemma merge_abc_xyz: "merge_chunks_with_overlap [''abc'', ''xyz''] ov = ''abcxyz''"
proof -
  have "find_overlap ''abc'' ''xyz'' n = None" if "n \<le> 3" for n
  proof -
    from that have "n = 0 \<or> n = Suc 0 \<or> n = Suc (Suc 0) \<or> n = Suc (Suc (Suc 0))" by arith
    then show ?thesis by (auto simp: py_suffix_def)
  qed
  then have "find_overlap ''abc'' ''xyz'' (nat (min ov 3)) = None" by simp
  then show ?thesis by (simp add: merge_step_def)
qed

text \<open>
  Claim C1. The merger starts from the first chunk and folds the remaining chunks into
  the accumulator in order. Each step appends the chunk without its first \<open>L\<close>
  characters, where \<open>L\<close> is the largest length between 1 and
  \<open>min(overlap_chars, len(accumulator), len(chunk))\<close> at which the accumulator ends
  with the chunk's first \<open>L\<close> characters, and \<open>L = 0\<close> (plain concatenation)
  when there is no such length. The two examples of the specification are instances.
\<close>

theorem merge_overlap_longest:
  "merge_chunks_with_overlap (c # cs) ov = foldl (merge_step ov) c cs \<and>
   (\<exists>L. merge_step ov acc chunk = acc @ drop L chunk \<and>
      int L \<le> max 0 (min ov (min (int (length acc)) (int (length chunk)))) \<and>
      (0 < L \<longrightarrow> suffix (take L chunk) acc) \<and>
      (\<forall>k. L < k \<and> int k \<le> min ov (min (int (length acc)) (int (length chunk)))
         \<longrightarrow> \<not> suffix (take k chunk) acc)) \<and>
   merge_chunks_with_overlap [''The quick brown fox'', '' brown fox jumps''] 20
     = ''The quick brown fox jumps'' \<and>
   merge_chunks_with_overlap [''abc'', ''xyz''] ov' = ''abcxyz''"
proof -
  have "merge_chunks_with_overlap [''The quick brown fox'', '' brown fox jumps''] 20
     = ''The quick brown fox jumps''"
    by code_simp
  with merge_cons [of c cs ov] merge_step_longest [of ov acc chunk] merge_abc_xyz [of ov']
  show ?thesis by blast
qed

theorem merge_overlap_longest_witness:
  "\<exists>L. merge_step 20 ''The quick brown fox'' '' brown fox jumps''
          = ''The quick brown fox'' @ drop L '' brown fox jumps'' \<and>
        0 < L \<and> suffix (take L '' brown fox jumps'') ''The quick brown fox''"
proof -
  from merge_overlap_longest [of _ _ 20 "''The quick brown fox''" "'' brown fox jumps''"]
  obtain L where
    s: "merge_step 20 ''The quick brown fox'' '' brown fox jumps''
          = ''The quick brown fox'' @ drop L '' brown fox jumps''"
    and p: "0 < L \<longrightarrow> suffix (take L '' brown fox jumps'') ''The quick brown fox''"
    and m: "\<forall>k. L < k \<and> int k \<le> min 20 (min (int (length ''The quick brown fox''))
                (int (length '' brown fox jumps'')))
              \<longrightarrow> \<not> suffix (take k '' brown fox jumps'') ''The quick brown fox''"
    by blast
  have "suffix (take 10 '' brown fox jumps'') ''The quick brown fox''"
    by (simp add: suffix_def)
  with m have "\<not> (L < 10)" by auto
  then have "0 < L" by simp
  with s p show ?thesis by blast
qed

section \<open>Properties of the reference removal\<close>



lemma match_here_iff:
  "match_here pat t \<longleftrightarrow> (\<exists>m r. t = m @ r \<and> list_all2 ignorecase_eq pat m)"
proof (induction pat t rule: match_here.induct)
  case (1 t)
  then show ?case by simp
next
  case (2 p ps)
  then show ?case by (simp add: list_all2_Cons1)
next
  case (3 p ps c cs)
  show ?case
  proof
    assume "match_here (p # ps) (c # cs)"
    with 3 obtain m r where "cs = m @ r" "list_all2 ignorecase_eq ps m" "ignorecase_eq p c"
      by auto
    then have "c # cs = (c # m) @ r \<and> list_all2 ignorecase_eq (p # ps) (c # m)" by simp
    then show "\<exists>m r. c # cs = m @ r \<and> list_all2 ignorecase_eq (p # ps) m" by blast
  next
    assume "\<exists>m r. c # cs = m @ r \<and> list_all2 ignorecase_eq (p # ps) m"
    then obtain m r where m: "c # cs = m @ r" "list_all2 ignorecase_eq (p # ps) m" by blast
    then obtain c' m' where "m = c' # m'" "ignorecase_eq p c'" "list_all2 ignorecase_eq ps m'"
      by (auto simp: list_all2_Cons1)
    with m 3 show "match_here (p # ps) (c # cs)" by auto
  qed
qed

lemma re_search_Some:
  "re_search pat t = Some i \<Longrightarrow>
     i \<le> length t \<and> match_here pat (drop i t) \<and> (\<forall>j<i. \<not> match_here pat (drop j t))"
proof (induction t arbitrary: i)
  case Nil
  then show ?case by (simp split: if_splits)
next
  case (Cons c cs)
  show ?case
  proof (cases "match_here pat (c # cs)")
    case True
    with Cons.prems show ?thesis by simp
  next
    case False
    with Cons.prems obtain i' where i': "re_search pat cs = Some i'" "i = Suc i'" by auto
    from Cons.IH [OF i'(1)] False i'(2) show ?thesis
      by (auto simp: less_Suc_eq_0_disj)
  qed
qed

lemma re_search_None:
  "re_search pat t = None \<Longrightarrow> j \<le> length t \<Longrightarrow> \<not> match_here pat (drop j t)"
proof (induction t arbitrary: j)
  case Nil
  then show ?case by (simp split: if_splits)
next
  case (Cons c cs)
  then show ?case by (cases j) (auto split: if_splits)
qed

lemma str_REFERENCES: "str ''REFERENCES'' = REFERENCES"
  by (simp add: str_def REFERENCES_def)

lemma occurs_at_iff: "occurs_at t i \<longleftrightarrow> i \<le> length t \<and> match_here REFERENCES (drop i t)"
proof -
  have "length m = 10" if "list_all2 ignorecase_eq REFERENCES m" for m
    using list_all2_lengthD [OF that] by (simp add: REFERENCES_def)
  then show ?thesis
    unfolding occurs_at_def match_here_iff str_REFERENCES by blast
qed

text \<open>
  Claim C10. \<^verbatim>\<open>remove_references_section\<close> returns the text strictly before the
  first case-insensitive occurrence of \<open>references\<close>, wherever in the text it stands
  (inside a longer word or a sentence as well); it returns the text unchanged when there is
  no occurrence; in both cases the result is a prefix of the input.
\<close>

theorem remove_references_prefix_before_first:
  "(occurs_at text i \<and> (\<forall>j<i. \<not> occurs_at text j) \<longrightarrow>
      remove_references_section text = take i text) \<and>
   ((\<forall>i. \<not> occurs_at text i) \<longrightarrow> remove_references_section text = text) \<and>
   prefix (remove_references_section text) text"
proof (cases "re_search REFERENCES text")
  case None
  from re_search_None [OF None] have "\<not> occurs_at text i" for i
    by (auto simp: occurs_at_iff)
  with None show ?thesis by (simp add: remove_references_section_def)
next
  case (Some k)
  from re_search_Some [OF Some] have k: "occurs_at text k" "\<forall>j<k. \<not> occurs_at text j"
    by (auto simp: occurs_at_iff)
  have r: "remove_references_section text = take k text"
    using Some by (simp add: remove_references_section_def)
  have "i = k" if "occurs_at text i" "\<forall>j<i. \<not> occurs_at text j" for i
    using that k by (meson linorder_neqE_nat)
  then have 1: "occurs_at text i \<and> (\<forall>j<i. \<not> occurs_at text j) \<longrightarrow>
      remove_references_section text = take i text"
    using r by blast
  have 2: "(\<forall>i. \<not> occurs_at text i) \<longrightarrow> remove_references_section text = text"
    using k by blast
  have 3: "prefix (remove_references_section text) text"
    unfolding r by (rule take_is_prefix)
  from 1 2 3 show ?thesis by blast
qed


theorem remove_references_prefix_before_first_witness:
  "occurs_at (str ''See References [1]'') 4 \<and>
   \<not> (\<exists>j<4. occurs_at (str ''See References [1]'') j) \<and>
   remove_references_section (str ''See References [1]'') = str ''See ''"
proof -
  let ?t = "str ''See References [1]''"
  have a: "occurs_at ?t 4"
    unfolding occurs_at_iff by code_simp
  have b: "\<not> occurs_at ?t j" if "j < 4" for j
  proof -
    from that have "j = 0 \<or> j = 1 \<or> j = 2 \<or> j = 3" by arith
    moreover have "\<not> occurs_at ?t 0" "\<not> occurs_at ?t 1" "\<not> occurs_at ?t 2" "\<not> occurs_at ?t 3"
      unfolding occurs_at_iff by code_simp+
    ultimately show ?thesis by blast
  qed
  from a b remove_references_prefix_before_first [of ?t 4]
  have "remove_references_section ?t = take 4 ?t" by blast
  moreover have "take 4 ?t = str ''See ''" by code_simp
  ultimately show ?thesis using a b by auto
qed

section \<open>Whitespace and splitting\<close>

lemma py_strip_eq_Nil_iff: "py_strip s = [] \<longleftrightarrow> (\<forall>c\<in>set s. py_isspace c)"
proof
  assume e: "py_strip s = []"
  show "\<forall>c\<in>set s. py_isspace c"
  proof (rule ccontr)
    assume "\<not> (\<forall>c\<in>set s. py_isspace c)"
    then have ne: "dropWhile py_isspace s \<noteq> []" by (simp add: dropWhile_eq_Nil_conv)
    then have "\<not> py_isspace (hd (dropWhile py_isspace s))" by (rule hd_dropWhile)
    moreover have "hd (dropWhile py_isspace s) \<in> set (rev (dropWhile py_isspace s))"
      using ne by simp
    moreover from e have "\<forall>c\<in>set (rev (dropWhile py_isspace s)). py_isspace c"
      by (simp add: py_strip_def dropWhile_eq_Nil_conv)
    ultimately show False by blast
  qed
next
  assume "\<forall>c\<in>set s. py_isspace c"
  then have d: "dropWhile py_isspace s = []" by (simp add: dropWhile_eq_Nil_conv)
  show "py_strip s = []" unfolding py_strip_def d by simp
qed

lemma nonws_eq_Nil_iff: "nonws s = [] \<longleftrightarrow> py_strip s = []"
  by (simp add: nonws_def py_strip_eq_Nil_iff filter_empty_conv)

lemma nonws_append [simp]: "nonws (a @ b) = nonws a @ nonws b"
  by (simp add: nonws_def)

lemma nonws_Nil [simp]: "nonws [] = []"
  by (simp add: nonws_def)

lemma nonws_dropWhile: "nonws (dropWhile py_isspace s) = nonws s"
  by (induction s) (simp_all add: nonws_def)

lemma nonws_rev: "nonws (rev s) = rev (nonws s)"
  by (simp add: nonws_def rev_filter)

lemma nonws_strip: "nonws (py_strip s) = nonws s"
  by (simp add: py_strip_def nonws_rev nonws_dropWhile)

lemma py_split_nn_not_Nil [simp]: "py_split_nn t \<noteq> []"
  by (induction t rule: py_split_nn.induct) (simp_all add: Let_def)

lemma py_join_Cons: "ps \<noteq> [] \<Longrightarrow> py_join sep (p # ps) = p @ sep @ py_join sep ps"
  by (cases ps) simp_all

lemma py_join_hd_Cons:
  "ps \<noteq> [] \<Longrightarrow> py_join sep ((a # hd ps) # tl ps) = a # py_join sep ps"
proof -
  assume "ps \<noteq> []"
  then obtain p qs where "ps = p # qs" by (cases ps) auto
  then show ?thesis by (cases qs) simp_all
qed

lemma py_join_split_nn: "py_join [10, 10] (py_split_nn t) = t"
proof (induction t rule: py_split_nn.induct)
  case 1
  show ?case by simp
next
  case (2 c)
  show ?case by simp
next
  case (3 a b r)
  show ?case
  proof (cases "a = 10 \<and> b = 10")
    case True
    with 3 show ?thesis by (auto simp add: py_join_Cons)
  next
    case False
    with 3 show ?thesis by (auto simp add: Let_def py_join_hd_Cons)
  qed
qed

lemma nonws_py_join_nn: "nonws (py_join [10, 10] ps) = nonws (concat ps)"
proof (induction ps)
  case Nil
  show ?case by simp
next
  case (Cons p ps)
  have "nonws (10 # 10 # x) = nonws x" for x
    by (simp add: nonws_def py_isspace_def)
  with Cons show ?case
    by (cases "ps = []") (simp_all add: py_join_Cons)
qed

lemma nonws_concat_split_nn: "nonws (concat (py_split_nn t)) = nonws t"
  using nonws_py_join_nn [of "py_split_nn t"] by (simp add: py_join_split_nn)

section \<open>Sentences\<close>

lemma re_split_punct_not_Nil [simp]: "re_split_punct p \<noteq> []"
  by (cases p) (simp_all add: Let_def)

lemma slice_even_not_Nil [simp]: "xs \<noteq> [] \<Longrightarrow> slice_even xs \<noteq> []"
  by (cases xs rule: slice_even.cases) simp_all

lemma slice_even_hd_Cons:
  "xs \<noteq> [] \<Longrightarrow> slice_even ((c # hd xs) # tl xs) = (c # hd (slice_even xs)) # tl (slice_even xs)"
  by (cases xs rule: slice_even.cases) simp_all

lemma slice_odd_hd_Cons:
  "xs \<noteq> [] \<Longrightarrow> slice_odd ((c # hd xs) # tl xs) = slice_odd xs"
  by (cases xs rule: slice_odd.cases) simp_all

lemma split_sentences_Nil [simp]: "split_sentences [] = [[]]"
  by (simp add: split_sentences_def)

lemma split_sentences_not_Nil [simp]: "split_sentences p \<noteq> []"
proof -
  have "slice_even (re_split_punct p) \<noteq> []" by simp
  then obtain x xs where "slice_even (re_split_punct p) = x # xs"
    by (cases "slice_even (re_split_punct p)") auto
  then show ?thesis
    by (cases "slice_odd (re_split_punct p)") (simp_all add: split_sentences_def)
qed

lemma split_sentences_Cons:
  "split_sentences (c # cs) =
     (if is_terminal c then [c] # split_sentences cs
      else (c # hd (split_sentences cs)) # tl (split_sentences cs))"
proof (cases "is_terminal c")
  case True
  then show ?thesis by (simp add: split_sentences_def Let_def)
next
  case False
  let ?r = "re_split_punct cs"
  obtain x xs where e: "slice_even ?r = x # xs"
    by (cases "slice_even ?r") (use slice_even_not_Nil [of ?r] in auto)
  obtain y ys where o: "slice_odd ?r @ [[]] = y # ys"
    by (cases "slice_odd ?r @ [[]]") auto
  from False e o show ?thesis
    by (simp add: split_sentences_def Let_def slice_even_hd_Cons slice_odd_hd_Cons)
qed

lemma concat_split_sentences: "concat (split_sentences p) = p"
proof (induction p)
  case Nil
  show ?case by simp
next
  case (Cons c cs)
  obtain x xs where "split_sentences cs = x # xs"
    by (cases "split_sentences cs") auto
  with Cons show ?case by (auto simp: split_sentences_Cons)
qed

lemma nonws_concat_filter:
  "nonws (concat (filter (\<lambda>s. py_strip s \<noteq> []) ss)) = nonws (concat ss)"
  by (induction ss) (simp_all add: nonws_eq_Nil_iff)

section \<open>The invariant of the chunking loops\<close>

lemma render_Nil [simp]: "render [] = []"
  by (simp add: render_def)

lemma render_snoc: "render (g @ [x]) = join_segment (render g) x"
  by (simp add: render_def)

lemma render_single [simp]: "render [x] = seg_text x"
  by (cases x) (simp_all add: render_def)

lemma join_segment_eq_Nil: "join_segment cur x = [] \<longleftrightarrow> cur = [] \<and> seg_text x = []"
  by (cases x) auto

lemma render_eq_Nil:
  "\<forall>x\<in>set g. seg_text x \<noteq> [] \<Longrightarrow> render g = [] \<longleftrightarrow> g = []"
  by (induction g rule: rev_induct) (simp_all add: render_snoc join_segment_eq_Nil)

lemma chunk_invI:
  "chunks st = map render gs \<Longrightarrow> current_chunk st = render g \<Longrightarrow> concat gs @ g = segs \<Longrightarrow>
   [] \<notin> set gs \<Longrightarrow> \<forall>x\<in>set gs. group_ok count m x \<Longrightarrow> g = [] \<or> group_ok count m g \<Longrightarrow>
   chunk_inv count m st segs"
  unfolding chunk_inv_def by blast

lemma sentence_step_inv:
  assumes inv: "chunk_inv count m st segs"
    and ne: "\<forall>x\<in>set segs. seg_text x \<noteq> []"
    and s: "py_strip s \<noteq> []"
  shows "chunk_inv count m (sentence_step count m st s) (segs @ [Sent s])"
proof -
  from inv obtain gs g where
    c: "chunks st = map render gs" and cur: "current_chunk st = render g" and
    segs: "concat gs @ g = segs" and nn: "[] \<notin> set gs" and
    ok: "\<forall>x\<in>set gs. group_ok count m x" and okg: "g = [] \<or> group_ok count m g"
    unfolding chunk_inv_def by blast
  from ne segs have neg: "\<forall>x\<in>set g. seg_text x \<noteq> []" by auto
  let ?test = "if current_chunk st \<noteq> [] then current_chunk st @ s else s"
  have test: "?test = render (g @ [Sent s])"
    by (simp add: render_snoc cur)
  show ?thesis
  proof (cases "int (count ?test) \<le> m")
    case True
    then have st': "sentence_step count m st s = st\<lparr>current_chunk := ?test\<rparr>"
      using s by (simp add: sentence_step_def Let_def)
    have "group_ok count m (g @ [Sent s])"
      using True test by (simp add: group_ok_def)
    then show ?thesis
      unfolding st' using c test segs nn ok
      by (intro chunk_invI [where gs = gs and g = "g @ [Sent s]"]) simp_all
  next
    case False
    show ?thesis
    proof (cases "current_chunk st = []")
      case True
      with cur have "render g = []" by simp
      with render_eq_Nil [OF neg] have g: "g = []" by blast
      from True False have st': "sentence_step count m st s = st\<lparr>current_chunk := s\<rparr>"
        using s by (simp add: sentence_step_def Let_def)
      show ?thesis
        unfolding st' using c segs nn ok g
        by (intro chunk_invI [where gs = gs and g = "[Sent s]"]) (simp_all add: group_ok_def)
    next
      case ne': False
      with cur have g: "g \<noteq> []" by auto
      from ne' False have st': "sentence_step count m st s =
          \<lparr>chunks = chunks st @ [current_chunk st], current_chunk = s\<rparr>"
        using s by (simp add: sentence_step_def Let_def)
      show ?thesis
        unfolding st' using c cur segs nn ok g okg
        by (intro chunk_invI [where gs = "gs @ [g]" and g = "[Sent s]"])
           (auto simp add: group_ok_def)
    qed
  qed
qed

lemma sentence_step_blank: "py_strip s = [] \<Longrightarrow> sentence_step count m st s = st"
  by (simp add: sentence_step_def)

lemma sentences_fold_inv:
  "chunk_inv count m st segs \<Longrightarrow> \<forall>x\<in>set segs. seg_text x \<noteq> [] \<Longrightarrow>
   chunk_inv count m (foldl (sentence_step count m) st ss)
     (segs @ map Sent (filter (\<lambda>s. py_strip s \<noteq> []) ss))"
proof (induction ss arbitrary: st segs)
  case Nil
  then show ?case by simp
next
  case (Cons s ss)
  show ?case
  proof (cases "py_strip s = []")
    case True
    with Cons show ?thesis by (simp add: sentence_step_blank)
  next
    case False
    then have "s \<noteq> []" by (auto simp: py_strip_def)
    with Cons.prems have "\<forall>x\<in>set (segs @ [Sent s]). seg_text x \<noteq> []" by simp
    from Cons.IH [OF sentence_step_inv [OF Cons.prems False] this] False
    show ?thesis by simp
  qed
qed

lemma flush_inv:
  assumes inv: "chunk_inv count m st segs"
    and ne: "current_chunk st \<noteq> []"
  shows "chunk_inv count m \<lparr>chunks = chunks st @ [current_chunk st], current_chunk = []\<rparr> segs"
proof -
  from inv obtain gs g where
    c: "chunks st = map render gs" and cur: "current_chunk st = render g" and
    segs: "concat gs @ g = segs" and nn: "[] \<notin> set gs" and
    ok: "\<forall>x\<in>set gs. group_ok count m x" and okg: "g = [] \<or> group_ok count m g"
    unfolding chunk_inv_def by blast
  from ne cur have g: "g \<noteq> []" by auto
  show ?thesis
    using c cur segs nn ok g okg
    by (intro chunk_invI [where gs = "gs @ [g]" and g = "[]"]) auto
qed

lemma paragraph_plain_inv:
  assumes inv: "chunk_inv count m st segs"
    and ne: "\<forall>x\<in>set segs. seg_text x \<noteq> []"
    and p: "py_strip p \<noteq> []" and small: "int (count p) \<le> m"
  shows "chunk_inv count m (paragraph_step count m st p) (segs @ [Para p])"
proof -
  from inv obtain gs g where
    c: "chunks st = map render gs" and cur: "current_chunk st = render g" and
    segs: "concat gs @ g = segs" and nn: "[] \<notin> set gs" and
    ok: "\<forall>x\<in>set gs. group_ok count m x" and okg: "g = [] \<or> group_ok count m g"
    unfolding chunk_inv_def by blast
  from ne segs have neg: "\<forall>x\<in>set g. seg_text x \<noteq> []" by auto
  let ?test = "if current_chunk st \<noteq> [] then current_chunk st @ [10, 10] @ p else p"
  have test: "?test = render (g @ [Para p])"
    by (simp add: render_snoc cur)
  show ?thesis
  proof (cases "int (count ?test) \<le> m")
    case True
    then have st': "paragraph_step count m st p = st\<lparr>current_chunk := ?test\<rparr>"
      using p small by (simp add: paragraph_step_def Let_def)
    have "group_ok count m (g @ [Para p])"
      using True test by (simp add: group_ok_def)
    then show ?thesis
      unfolding st' using c test segs nn ok
      by (intro chunk_invI [where gs = gs and g = "g @ [Para p]"]) simp_all
  next
    case False
    show ?thesis
    proof (cases "current_chunk st = []")
      case True
      with cur have "render g = []" by simp
      with render_eq_Nil [OF neg] have g: "g = []" by blast
      from True False have st': "paragraph_step count m st p = st\<lparr>current_chunk := p\<rparr>"
        using p small by (simp add: paragraph_step_def Let_def)
      show ?thesis
        unfolding st' using c segs nn ok g small
        by (intro chunk_invI [where gs = gs and g = "[Para p]"]) (simp_all add: group_ok_def)
    next
      case ne': False
      with cur have g: "g \<noteq> []" by auto
      from ne' False have st': "paragraph_step count m st p =
          \<lparr>chunks = chunks st @ [current_chunk st], current_chunk = p\<rparr>"
        using p small by (simp add: paragraph_step_def Let_def)
      show ?thesis
        unfolding st' using c cur segs nn ok g okg small
        by (intro chunk_invI [where gs = "gs @ [g]" and g = "[Para p]"])
           (auto simp add: group_ok_def)
    qed
  qed
qed

lemma para_segments_nonempty: "\<forall>x\<in>set (para_segments count m p). seg_text x \<noteq> []"
  by (auto simp: para_segments_def py_strip_def)

lemma paragraph_step_inv:
  assumes inv: "chunk_inv count m st segs"
    and ne: "\<forall>x\<in>set segs. seg_text x \<noteq> []"
  shows "chunk_inv count m (paragraph_step count m st p) (segs @ para_segments count m p)"
proof (cases "py_strip p = []")
  case True
  with inv show ?thesis by (simp add: paragraph_step_def para_segments_def)
next
  case nb: False
  show ?thesis
  proof (cases "int (count p) > m")
    case False
    with nb paragraph_plain_inv [OF inv ne nb] show ?thesis
      by (simp add: para_segments_def)
  next
    case True
    let ?st1 = "if current_chunk st \<noteq> []
                then \<lparr>chunks = chunks st @ [current_chunk st], current_chunk = []\<rparr> else st"
    have "chunk_inv count m ?st1 segs"
      using inv flush_inv [OF inv] by simp
    from sentences_fold_inv [OF this ne, of "split_sentences p"] nb True
    show ?thesis by (simp add: paragraph_step_def para_segments_def Let_def)
  qed
qed

lemma segments_nonempty: "\<forall>x\<in>set (segments count m ps). seg_text x \<noteq> []"
  using para_segments_nonempty by (auto simp: segments_def)

lemma segments_snoc:
  "segments count m (ps @ [p]) = segments count m ps @ para_segments count m p"
  by (simp add: segments_def)

lemma paragraphs_fold_inv:
  "chunk_inv count m
     (foldl (paragraph_step count m) \<lparr>chunks = [], current_chunk = []\<rparr> ps)
     (segments count m ps)"
proof (induction ps rule: rev_induct)
  case Nil
  show ?case
    by (intro chunk_invI [where gs = "[]" and g = "[]"]) (simp_all add: segments_def)
next
  case (snoc p ps)
  from paragraph_step_inv [OF snoc segments_nonempty, of p]
  show ?case by (simp add: segments_snoc)
qed

lemma assemble_groups:
  "\<exists>gs. assemble count m ps = map render gs \<and> concat gs = segments count m ps \<and>
        [] \<notin> set gs \<and> (\<forall>g\<in>set gs. group_ok count m g)"
proof -
  let ?st = "foldl (paragraph_step count m) \<lparr>chunks = [], current_chunk = []\<rparr> ps"
  from paragraphs_fold_inv [of count m ps] obtain gs g where
    c: "chunks ?st = map render gs" and cur: "current_chunk ?st = render g" and
    segs: "concat gs @ g = segments count m ps" and nn: "[] \<notin> set gs" and
    ok: "\<forall>x\<in>set gs. group_ok count m x" and okg: "g = [] \<or> group_ok count m g"
    unfolding chunk_inv_def by blast
  from segs segments_nonempty [of count m ps] have "\<forall>x\<in>set g. seg_text x \<noteq> []"
    by (metis Un_iff set_append)
  then have gn: "render g = [] \<longleftrightarrow> g = []" by (rule render_eq_Nil)
  show ?thesis
  proof (cases "g = []")
    case True
    with c cur segs nn ok show ?thesis
      by (intro exI [of _ gs]) (simp add: assemble_def final_chunks_def)
  next
    case False
    with c cur segs nn ok okg gn show ?thesis
      by (intro exI [of _ "gs @ [g]"]) (auto simp add: assemble_def final_chunks_def)
  qed
qed

lemma nonws_render: "nonws (render g) = nonws (concat (map seg_text g))"
proof (induction g rule: rev_induct)
  case Nil
  show ?case by simp
next
  case (snoc x g)
  have "nonws (10 # 10 # t) = nonws t" for t
    by (simp add: nonws_def py_isspace_def)
  then have "nonws (join_segment cur x) = nonws cur @ nonws (seg_text x)" for cur
    by (cases x) simp_all
  with snoc show ?case
    by (simp add: render_snoc)
qed

lemma nonws_concat_map_render:
  "nonws (concat (map render gs)) = nonws (concat (map seg_text (concat gs)))"
  by (induction gs) (simp_all add: nonws_render)

lemma nonws_para_segments:
  "nonws (concat (map seg_text (para_segments count m p))) = nonws p"
proof -
  have "map seg_text (map Sent ss) = ss" for ss
    by (induction ss) simp_all
  then show ?thesis
  proof (cases "py_strip p = []")
    case True
    then have "nonws p = []" by (simp add: nonws_eq_Nil_iff)
    with True show ?thesis by (simp add: para_segments_def)
  next
    case False
    with \<open>\<And>ss. map seg_text (map Sent ss) = ss\<close> show ?thesis
      by (simp add: para_segments_def nonws_concat_filter concat_split_sentences
            del: map_map)
  qed
qed

lemma nonws_segments:
  "nonws (concat (map seg_text (segments count m ps))) = nonws (concat ps)"
  by (induction ps) (simp_all add: segments_def nonws_para_segments)

lemma nonws_assemble: "nonws (concat (assemble count m ps)) = nonws (concat ps)"
proof -
  from assemble_groups [of count m ps] obtain gs where
    "assemble count m ps = map render gs" "concat gs = segments count m ps" by blast
  then show ?thesis
    by (simp add: nonws_concat_map_render nonws_segments)
qed

lemma nonws_split_text:
  "nonws (concat (split_text_into_chunks count t m)) = nonws t"
  by (simp add: split_text_into_chunks_def nonws_assemble nonws_concat_split_nn)

text \<open>
  Claim C5. The chunk assembler is the loop of \<^verbatim>\<open>split_text_into_chunks\<close> over the
  paragraphs. For every paragraph sequence, the chunks it emits are, in order, the texts
  of consecutive non-empty groups that divide the sequence of segments: every non-blank
  paragraph (or, for a paragraph over the budget, each of its non-blank sentences) lies
  in exactly one chunk, in its original position, and nothing but whitespace is lost: the
  non-whitespace characters of the chunks are those of the paragraphs, in the same order.
\<close>

theorem chunks_partition_segments:
  "split_text_into_chunks count text m = assemble count m (py_split_nn text) \<and>
   (\<exists>gs. assemble count m ps = map render gs \<and> concat gs = segments count m ps \<and>
         [] \<notin> set gs) \<and>
   nonws (concat (assemble count m ps)) = nonws (concat ps)"
proof -
  from assemble_groups [of count m ps]
  have "\<exists>gs. assemble count m ps = map render gs \<and> concat gs = segments count m ps \<and>
         [] \<notin> set gs" by blast
  then show ?thesis
    by (simp add: split_text_into_chunks_def nonws_assemble)
qed

lemma sentence_of_oversized_iff:
  "sentence_of_oversized count m t s \<longleftrightarrow> Sent s \<in> set (segments count m (py_split_nn t))"
  by (auto simp: sentence_of_oversized_def segments_def para_segments_def split: if_splits)

lemma sublist_seg_text_render: "x \<in> set g \<Longrightarrow> sublist (seg_text x) (render g)"
proof (induction g rule: rev_induct)
  case Nil
  then show ?case by simp
next
  case (snoc y g)
  have "suffix (seg_text y) (join_segment (render g) y)"
    by (cases y) (simp_all add: suffix_def)
  then have a: "sublist (seg_text y) (join_segment (render g) y)"
    by (rule suffix_imp_sublist)
  have "prefix (render g) (join_segment (render g) y)"
    by (cases y) simp_all
  then have b: "sublist t (render g) \<Longrightarrow> sublist t (join_segment (render g) y)" for t
    by (meson prefix_imp_sublist sublist_order.order_trans)
  from snoc a b show ?case
    by (auto simp: render_snoc)
qed

text \<open>
  Claim C2, amended. For every text, budget and tokenizer, every chunk is within the
  budget unless it consists of exactly one sentence (of a paragraph over the budget)
  whose own count exceeds the budget. Every non-blank sentence of such a paragraph is
  contained whole in some chunk. It is a chunk of its own whenever every text containing
  it exceeds the budget; in particular, under a tokenizer whose count never decreases
  when text is added before or after, every such sentence whose own count exceeds the
  budget is a chunk of its own.
\<close>

theorem chunk_budget:
  "(\<forall>c\<in>set (split_text_into_chunks count text m).
      int (count c) \<le> m \<or>
      (int (count c) > m \<and> sentence_of_oversized count m text c)) \<and>
   (\<forall>s. sentence_of_oversized count m text s \<longrightarrow>
      (\<exists>c\<in>set (split_text_into_chunks count text m). sublist s c)) \<and>
   (\<forall>s. sentence_of_oversized count m text s \<and>
        (\<forall>t. sublist s t \<longrightarrow> int (count t) > m) \<longrightarrow>
      s \<in> set (split_text_into_chunks count text m)) \<and>
   ((\<forall>a b. count a \<le> count (a @ b) \<and> count b \<le> count (a @ b)) \<longrightarrow>
      (\<forall>s. sentence_of_oversized count m text s \<and> int (count s) > m \<longrightarrow>
         s \<in> set (split_text_into_chunks count text m)))"
proof -
  let ?segs = "segments count m (py_split_nn text)"
  let ?cs = "split_text_into_chunks count text m"
  have so: "sentence_of_oversized count m text s \<longleftrightarrow> Sent s \<in> set ?segs" for s
    by (rule sentence_of_oversized_iff)
  from assemble_groups [of count m "py_split_nn text"] obtain gs where
    cs: "?cs = map render gs" and segs: "concat gs = ?segs" and
    ok: "\<forall>g\<in>set gs. group_ok count m g"
    unfolding split_text_into_chunks_def by blast
  have 1: "int (count c) \<le> m \<or> (int (count c) > m \<and> Sent c \<in> set ?segs)"
    if "c \<in> set ?cs" for c
  proof -
    from that cs obtain g where g: "g \<in> set gs" "c = render g" by auto
    with ok have "group_ok count m g" by blast
    then show ?thesis
    proof (cases "int (count c) \<le> m")
      case True
      then show ?thesis by simp
    next
      case False
      with \<open>group_ok count m g\<close> g obtain s where s: "g = [Sent s]"
        by (auto simp: group_ok_def)
      with g have "c = s" by simp
      moreover from s g segs have "Sent s \<in> set ?segs"
        by (metis UN_I list.set_intros(1) set_concat)
      ultimately show ?thesis using False by simp
    qed
  qed
  have grp: "\<exists>g\<in>set gs. Sent s \<in> set g" if "Sent s \<in> set ?segs" for s
    using that segs by (metis UN_E set_concat)
  have 2: "\<exists>c\<in>set ?cs. sublist s c" if "Sent s \<in> set ?segs" for s
  proof -
    from grp [OF that] obtain g where g: "g \<in> set gs" "Sent s \<in> set g" by blast
    from sublist_seg_text_render [OF g(2)] have "sublist s (render g)" by simp
    with g cs show ?thesis by auto
  qed
  have 3: "s \<in> set ?cs"
    if "Sent s \<in> set ?segs" and big: "\<forall>t. sublist s t \<longrightarrow> int (count t) > m" for s
  proof -
    from grp [OF that(1)] obtain g where g: "g \<in> set gs" "Sent s \<in> set g" by blast
    from sublist_seg_text_render [OF g(2)] have "sublist s (render g)" by simp
    with big have "int (count (render g)) > m" by blast
    with ok g obtain s' where "g = [Sent s']" by (auto simp: group_ok_def)
    with g have "render g = s" by simp
    with g cs show ?thesis by force
  qed
  have 4: "s \<in> set ?cs"
    if mono: "\<forall>a b. count a \<le> count (a @ b) \<and> count b \<le> count (a @ b)"
      and s: "Sent s \<in> set ?segs" and big: "int (count s) > m" for s
  proof -
    have "int (count t) > m" if "sublist s t" for t
    proof -
      from that obtain a b where t: "t = a @ s @ b" by (auto simp: sublist_def)
      from mono have "count s \<le> count (s @ b)" "count (s @ b) \<le> count (a @ s @ b)" by blast+
      with big t show ?thesis by simp
    qed
    with 3 [OF s] show ?thesis by blast
  qed
  from 1 2 3 4 show ?thesis unfolding so by blast
qed

text \<open>Equations that evaluate the splitting functions on concrete texts in linear time.\<close>

lemma split_sentences_eval:
  "split_sentences (c # cs) =
     (case split_sentences cs of
        x # xs \<Rightarrow> if is_terminal c then [c] # x # xs else (c # x) # xs)"
  by (cases "split_sentences cs") (simp_all add: split_sentences_Cons)

lemma py_split_nn_eval:
  "py_split_nn (a # b # r) =
     (if a = 10 \<and> b = 10 then [] # py_split_nn r
      else (case py_split_nn (b # r) of p # ps \<Rightarrow> (a # p) # ps))"
  by (cases "py_split_nn (b # r)") (simp_all add: Let_def)

lemmas chunk_eval =
  str_def split_text_into_chunks_def assemble_def paragraph_step_def sentence_step_def
  final_chunks_def split_sentences_eval is_terminal_def py_strip_eq_Nil_iff py_isspace_def
  segments_def para_segments_def py_split_nn_eval

text \<open>
  Claim C2 as stated fails for a tokenizer whose count can drop when text is appended:
  with a budget of one token, the sentence \<open>A.\<close> counts two tokens, yet it is packed
  with the next sentence into the chunk \<open>A.B.\<close>, which counts one token; it is not
  emitted as a chunk of its own.
\<close>

theorem chunk_budget_counterexample:
  "split_text_into_chunks count_ab (str ''A.B.C.'') 1 = [str ''A.B.'', str ''C.''] \<and>
   str ''A.'' \<in> set (split_sentences (str ''A.B.C.'')) \<and>
   int (count_ab (str ''A.B.C.'')) > 1 \<and>
   int (count_ab (str ''A.'')) > 1 \<and>
   str ''A.'' \<notin> set (split_text_into_chunks count_ab (str ''A.B.C.'') 1)"
  by (simp add: chunk_eval del: py_split_nn.simps(3))

theorem chunk_budget_witness:
  "str ''a.'' \<in> set (split_text_into_chunks length (str ''a.bcd.'') 3) \<and>
   int (length (str ''a.'')) \<le> 3 \<and>
   sentence_of_oversized length 3 (str ''a.bcd.'') (str ''bcd.'') \<and>
   \<not> (\<exists>t. sublist (str ''bcd.'') t \<and> int (length t) \<le> 3) \<and>
   (\<forall>a b :: pystr. length a \<le> length (a @ b) \<and> length b \<le> length (a @ b)) \<and>
   int (length (str ''bcd.'')) > 3 \<and>
   str ''bcd.'' \<in> set (split_text_into_chunks length (str ''a.bcd.'') 3)"
proof -
  let ?t = "str ''a.bcd.''" and ?s = "str ''bcd.''"
  have ch: "split_text_into_chunks length ?t 3 = [str ''a.'', ?s]"
    by (simp add: chunk_eval del: py_split_nn.simps(3))
  have a: "sentence_of_oversized length 3 ?t ?s"
    unfolding sentence_of_oversized_iff by (simp add: chunk_eval del: py_split_nn.simps(3))
  have b: "int (length t) > 3" if "sublist ?s t" for t
  proof -
    from that have "length ?s \<le> length t" by (rule sublist_length_le)
    then show ?thesis by (simp add: str_def)
  qed
  from a b chunk_budget [of length ?t 3] have c: "?s \<in> set (split_text_into_chunks length ?t 3)"
    by blast
  have d: "str ''a.'' \<in> set (split_text_into_chunks length ?t 3)"
    unfolding ch by simp
  with chunk_budget [of length ?t 3]
  have "int (length (str ''a.'')) \<le> 3 \<or>
      (int (length (str ''a.'')) > 3 \<and> sentence_of_oversized length 3 ?t (str ''a.''))"
    by blast
  then have e: "int (length (str ''a.'')) \<le> 3" by (simp add: str_def)
  from b have b': "\<not> (\<exists>t. sublist ?s t \<and> int (length t) \<le> 3)" by fastforce
  have mono: "\<forall>a b :: pystr. length a \<le> length (a @ b) \<and> length b \<le> length (a @ b)"
    by simp
  have big: "int (length ?s) > 3" by (simp add: str_def)
  from a mono big chunk_budget [of length ?t 3]
  have c': "?s \<in> set (split_text_into_chunks length ?t 3)"
    by blast
  from a b' c c' d e mono big show ?thesis by blast
qed

theorem chunks_partition_segments_witness:
  "\<exists>gs. split_text_into_chunks length (str ''a.bcd.'') 3 = map render gs \<and>
        concat gs = [Sent (str ''a.''), Sent (str ''bcd.'')] \<and> [] \<notin> set gs"
proof -
  let ?t = "str ''a.bcd.''"
  have "segments length 3 (py_split_nn ?t) = [Sent (str ''a.''), Sent (str ''bcd.'')]"
    by (simp add: chunk_eval del: py_split_nn.simps(3))
  with chunks_partition_segments [of length ?t 3 "py_split_nn ?t"] show ?thesis
    by simp
qed

section \<open>Properties of the boundary splitter\<close>

lemma hd_py_split_nn_prefix: "prefix (hd (py_split_nn t)) t"
  by (induction t rule: py_split_nn.induct) (auto simp: Let_def)

lemma not_sublist_nn_Cons:
  assumes "\<not> sublist [10, 10] h" and "prefix h (b # r)" and "\<not> (a = 10 \<and> b = 10)"
  shows "\<not> sublist [10, 10] (a # h)"
proof (cases h)
  case Nil
  then show ?thesis by (simp add: sublist_Cons_right)
next
  case (Cons x h')
  with assms(2) have "x = b" by simp
  with Cons assms(1,3) show ?thesis by (auto simp add: sublist_Cons_right)
qed

lemma py_split_nn_pieces: "\<forall>p\<in>set (py_split_nn t). \<not> sublist [10, 10] p"
proof (induction t rule: py_split_nn.induct)
  case 1
  show ?case by simp
next
  case (2 c)
  show ?case by (simp add: sublist_Cons_right)
next
  case (3 a b r)
  show ?case
  proof (cases "a = 10 \<and> b = 10")
    case True
    with 3 show ?thesis by simp
  next
    case False
    let ?ps = "py_split_nn (b # r)"
    from 3 False have ih: "\<forall>p\<in>set ?ps. \<not> sublist [10, 10] p" by simp
    have ne: "?ps \<noteq> []" by simp
    then have "hd ?ps \<in> set ?ps" by (rule hd_in_set)
    with ih have "\<not> sublist [10, 10] (hd ?ps)" by blast
    from not_sublist_nn_Cons [OF this hd_py_split_nn_prefix False]
    have h: "\<not> sublist [10, 10] (a # hd ?ps)" .
    from ne have "set (tl ?ps) \<subseteq> set ?ps" by (simp add: list.set_sel(2) subsetI)
    with ih have "\<forall>p\<in>set (tl ?ps). \<not> sublist [10, 10] p" by blast
    with h False show ?thesis by (auto simp add: Let_def)
  qed
qed

lemma py_split_nn_single: "\<not> sublist [10, 10] t \<Longrightarrow> py_split_nn t = [t]"
proof (induction t rule: py_split_nn.induct)
  case 1
  show ?case by simp
next
  case (2 c)
  show ?case by simp
next
  case (3 a b r)
  from 3(3) have nn: "\<not> (a = 10 \<and> b = 10)" and r: "\<not> sublist [10, 10] (b # r)"
    by (auto simp: sublist_Cons_right)
  with 3 have "py_split_nn (b # r) = [b # r]" by simp
  with nn show ?case by (simp add: Let_def)
qed

lemma py_split_nn_first:
  "\<not> sublist [10, 10] (p @ [10]) \<Longrightarrow> py_split_nn (p @ 10 # 10 # r) = p # py_split_nn r"
proof (induction p)
  case Nil
  show ?case by simp
next
  case (Cons a p)
  from Cons.prems have tl: "\<not> sublist [10, 10] (p @ [10])"
    by (simp add: sublist_Cons_right)
  from Cons.IH [OF tl] have ih: "py_split_nn (p @ 10 # 10 # r) = p # py_split_nn r" .
  obtain b rest where br: "p @ 10 # 10 # r = b # rest"
    by (cases "p @ 10 # 10 # r") auto
  have b: "\<not> (a = 10 \<and> b = 10)"
  proof (cases p)
    case Nil
    with br have "b = 10" by simp
    with Nil Cons.prems show ?thesis by (auto simp: sublist_Cons_right)
  next
    case (Cons x xs)
    with br have "b = x" by simp
    with Cons Cons.prems show ?thesis by (auto simp: sublist_Cons_right)
  qed
  have "py_split_nn (a # b # rest) = (a # hd (py_split_nn (b # rest))) # tl (py_split_nn (b # rest))"
    using b by (auto simp: Let_def)
  with ih br show ?case by simp
qed

lemma paragraphs_first:
  assumes "\<not> sublist [10, 10] (p @ [10])"
  shows "paragraphs (p @ [10, 10] @ r) =
           (if \<exists>c\<in>set p. \<not> py_isspace c then [p] else []) @ paragraphs r"
  using py_split_nn_first [OF assms, of r]
  by (simp add: paragraphs_def py_strip_eq_Nil_iff)


lemma first_blank_line:
  "sublist [10, 10] (t :: pystr) \<Longrightarrow>
     \<exists>p r. t = p @ [10, 10] @ r \<and> \<not> sublist [10, 10] (p @ [10])"
proof (induction t)
  case Nil
  then show ?case by simp
next
  case (Cons a t)
  show ?case
  proof (cases "prefix [10, 10] (a # t)")
    case True
    then obtain r where "a # t = [] @ [10, 10] @ r" by (auto simp: prefix_def)
    moreover have "\<not> sublist [10, 10] ([] @ [10])" by (simp add: sublist_Cons_right)
    ultimately show ?thesis by blast
  next
    case False
    with Cons.prems have "sublist [10, 10] t" by (auto simp add: sublist_Cons_right)
    from Cons.IH [OF this] obtain p r where
      t: "t = p @ [10, 10] @ r" and n: "\<not> sublist [10, 10] (p @ [10])" by blast
    have "\<not> prefix [10, 10] (a # p @ [10])"
    proof
      assume "prefix [10, 10] (a # p @ [10])"
      then have "prefix [10, 10] (a # p @ [10] @ (10 # r))"
        by (metis append_Cons append_assoc prefix_prefix)
      with t False show False by simp
    qed
    with n have "\<not> sublist [10, 10] ((a # p) @ [10])" by (simp add: sublist_Cons_right)
    moreover from t have "a # t = (a # p) @ [10, 10] @ r" by simp
    ultimately show ?thesis by blast
  qed
qed

text \<open>
  Claim C8, amended. The boundary splitter cuts the text at each pair of consecutive line
  breaks, taken from left to right. A text that contains no two consecutive line breaks
  yields exactly one paragraph, the text itself, when it has a non-whitespace character,
  and no paragraph otherwise. Any other text has a leftmost pair of consecutive line
  breaks: the text before that pair is the first piece, kept as a paragraph when it has a
  non-whitespace character and discarded otherwise, and the text after the pair is split
  in the same way. Joining the pieces with a blank line gives the text back, and no piece
  contains two consecutive line breaks. The splitter is a function of the text alone,
  defined on every text.
\<close>

theorem paragraphs_split:
  "py_join [10, 10] (py_split_nn text) = text \<and>
   (\<forall>p\<in>set (py_split_nn text). \<not> sublist [10, 10] p) \<and>
   paragraphs text = filter (\<lambda>p. \<exists>c\<in>set p. \<not> py_isspace c) (py_split_nn text) \<and>
   (\<not> sublist [10, 10] text \<longrightarrow>
      paragraphs text = (if \<exists>c\<in>set text. \<not> py_isspace c then [text] else [])) \<and>
   (sublist [10, 10] text \<longrightarrow>
      (\<exists>p r. text = p @ [10, 10] @ r \<and> \<not> sublist [10, 10] (p @ [10]))) \<and>
   (\<not> sublist [10, 10] (p @ [10]) \<longrightarrow>
      py_split_nn (p @ [10, 10] @ r) = p # py_split_nn r \<and>
      paragraphs (p @ [10, 10] @ r) =
        (if \<exists>c\<in>set p. \<not> py_isspace c then [p] else []) @ paragraphs r)"
proof -
  have "paragraphs text = filter (\<lambda>p. \<exists>c\<in>set p. \<not> py_isspace c) (py_split_nn text)"
    by (simp add: paragraphs_def py_strip_eq_Nil_iff)
  moreover from this have "\<not> sublist [10, 10] text \<longrightarrow>
      paragraphs text = (if \<exists>c\<in>set text. \<not> py_isspace c then [text] else [])"
    by (simp add: py_split_nn_single)
  moreover have "\<not> sublist [10, 10] (p @ [10]) \<longrightarrow>
      py_split_nn (p @ [10, 10] @ r) = p # py_split_nn r \<and>
      paragraphs (p @ [10, 10] @ r) =
        (if \<exists>c\<in>set p. \<not> py_isspace c then [p] else []) @ paragraphs r"
    using py_split_nn_first [of p r] paragraphs_first [of p r] by simp
  ultimately show ?thesis
    using py_join_split_nn [of "text"] py_split_nn_pieces [of "text"]
      first_blank_line [of "text"] by blast
qed

text \<open>
  Claim C8 as stated fails in two ways. A text without non-whitespace content (the empty
  text, a text of spaces and a single line break) has no blank line and yields no
  paragraph rather than one. And of a run of three line breaks only the first two make
  the boundary: the third stays at the start of the next paragraph.
\<close>

theorem paragraphs_split_counterexample:
  "\<not> sublist [10, 10] ([] :: pystr) \<and> paragraphs [] = [] \<and>
   \<not> sublist [10, 10] (str '' \<newline> '') \<and> paragraphs (str '' \<newline> '') = [] \<and>
   paragraphs (str ''a\<newline>\<newline>\<newline>b'') = [str ''a'', str ''\<newline>b'']"
  by (simp add: paragraphs_def py_strip_eq_Nil_iff py_isspace_def str_def sublist_Cons_right
        py_split_nn_eval del: py_split_nn.simps(3))

theorem paragraphs_split_witness:
  "py_split_nn (str ''a\<newline>\<newline>\<newline>b\<newline>\<newline> '') = [str ''a'', str ''\<newline>b'', str '' ''] \<and>
   \<not> sublist [10, 10] (str ''\<newline>b'') \<and>
   paragraphs (str ''a\<newline>\<newline>\<newline>b\<newline>\<newline> '') = [str ''a'', str ''\<newline>b''] \<and>
   \<not> sublist [10, 10] (str ''a\<newline>b'') \<and> paragraphs (str ''a\<newline>b'') = [str ''a\<newline>b''] \<and>
   \<not> sublist [10, 10] (str ''a'' @ [10]) \<and>
   paragraphs (str ''a'' @ [10, 10] @ str ''\<newline>b'') = [str ''a''] @ paragraphs (str ''\<newline>b'') \<and>
   paragraphs (str ''\<newline>b'') = [str ''\<newline>b''] \<and>
   (\<exists>p r. str ''a\<newline>\<newline>\<newline>b'' = p @ [10, 10] @ r \<and> \<not> sublist [10, 10] (p @ [10]))"
proof -
  let ?t = "str ''a\<newline>\<newline>\<newline>b\<newline>\<newline> ''"
  have sp: "py_split_nn ?t = [str ''a'', str ''\<newline>b'', str '' '']"
    by (simp add: str_def py_split_nn_eval del: py_split_nn.simps(3))
  with paragraphs_split [of ?t] have a: "\<not> sublist [10, 10] (str ''\<newline>b'')"
    by simp
  from paragraphs_split [of ?t]
  have "paragraphs ?t = filter (\<lambda>p. \<exists>c\<in>set p. \<not> py_isspace c) (py_split_nn ?t)"
    by blast
  then have b: "paragraphs ?t = [str ''a'', str ''\<newline>b'']"
    unfolding sp by (simp add: str_def py_isspace_def)
  have c: "\<not> sublist [10, 10] (str ''a\<newline>b'')"
    by (simp add: str_def sublist_Cons_right)
  with paragraphs_split [of "str ''a\<newline>b''"]
  have d: "paragraphs (str ''a\<newline>b'') = [str ''a\<newline>b'']"
    by (simp add: str_def py_isspace_def)
  have e: "\<not> sublist [10, 10] (str ''a'' @ [10])"
    by (simp add: str_def sublist_Cons_right)
  with paragraphs_split [of _ "str ''a''" "str ''\<newline>b''"]
  have f: "paragraphs (str ''a'' @ [10, 10] @ str ''\<newline>b'') = [str ''a''] @ paragraphs (str ''\<newline>b'')"
    by (simp add: str_def py_isspace_def)
  from a paragraphs_split [of "str ''\<newline>b''"]
  have g: "paragraphs (str ''\<newline>b'') = [str ''\<newline>b'']"
    by (simp add: str_def py_isspace_def)
  have "sublist [10, 10] (str ''a\<newline>\<newline>\<newline>b'')"
    by (simp add: str_def sublist_Cons_right)
  with paragraphs_split [of "str ''a\<newline>\<newline>\<newline>b''"]
  have h: "\<exists>p r. str ''a\<newline>\<newline>\<newline>b'' = p @ [10, 10] @ r \<and> \<not> sublist [10, 10] (p @ [10])"
    by blast
  from sp a b c d e f g h show ?thesis by blast
qed

section \<open>Properties of the pipeline\<close>

lemma remove_references_is_prefix: "prefix (remove_references_section t) t"
  by (simp add: remove_references_section_def take_is_prefix split: option.split)

lemma remove_references_Nil [simp]: "remove_references_section [] = []"
  using remove_references_is_prefix [of "[]"] by simp

lemma set_piece_py_join: "p \<in> set ps \<Longrightarrow> set p \<subseteq> set (py_join sep ps)"
proof (induction ps)
  case Nil
  then show ?case by simp
next
  case (Cons q ps)
  then show ?case
    by (cases "ps = []") (auto simp: py_join_Cons)
qed

lemma set_piece_py_split_nn: "p \<in> set (py_split_nn t) \<Longrightarrow> set p \<subseteq> set t"
  using set_piece_py_join [of p "py_split_nn t" "[10, 10]"] by (simp add: py_join_split_nn)

lemma foldl_paragraph_step_blank:
  "\<forall>p\<in>set ps. py_strip p = [] \<Longrightarrow> foldl (paragraph_step count m) st ps = st"
  by (induction ps arbitrary: st) (simp_all add: paragraph_step_def)

lemma split_text_blank:
  assumes "\<forall>c\<in>set t. py_isspace c"
  shows "split_text_into_chunks count t m = []"
proof -
  have "\<forall>p\<in>set (py_split_nn t). py_strip p = []"
    using assms set_piece_py_split_nn by (fastforce simp: py_strip_eq_Nil_iff)
  then show ?thesis
    by (simp add: split_text_into_chunks_def assemble_def foldl_paragraph_step_blank
          final_chunks_def)
qed

text \<open>
  Claim C7. On an empty text, and on a text that has no non-whitespace character, the
  pipeline returns the empty string and leaves the state of the oracle as it was: since
  that holds for every oracle, the transform is not called for any chunk. The model has
  no failing branch on this path, so nothing is raised.
\<close>

theorem pipeline_blank_input:
  "\<forall>c\<in>set raw_text. py_isspace c \<Longrightarrow>
     extract_text_from_pdf llm count s raw_text max_tokens = ([], s)"
proof -
  assume blank: "\<forall>c\<in>set raw_text. py_isspace c"
  have "set (remove_references_section raw_text) \<subseteq> set raw_text"
    using remove_references_is_prefix by (rule set_mono_prefix)
  with blank have "\<forall>c\<in>set (remove_references_section raw_text). py_isspace c" by blast
  then have "split_text_into_chunks count (remove_references_section raw_text) max_tokens = []"
    by (rule split_text_blank)
  then show ?thesis by (simp add: extract_text_from_pdf_def)
qed

theorem pipeline_blank_input_witness:
  "extract_text_from_pdf (\<lambda>s c. (Some c, Suc s)) length 0 (str '' \<newline>\<newline> '') 5 = ([], 0) \<and>
   extract_text_from_pdf (\<lambda>s c. (Some c, Suc s)) length 0 [] 5 = ([], 0)"
proof -
  have "\<forall>c\<in>set (str '' \<newline>\<newline> ''). py_isspace c"
    by (simp add: str_def py_isspace_def)
  from pipeline_blank_input [OF this, of "\<lambda>s c. (Some c, Suc s)" length 0 5]
    pipeline_blank_input [of "[]" "\<lambda>s c. (Some c, Suc s)" length 0 5]
  show ?thesis by simp
qed

lemma clean_chunk_fail:
  "fst (llm s chunk) = None \<Longrightarrow> fst (clean_text_chunk_with_llm llm s chunk) = chunk"
  by (cases "llm s chunk") (simp add: clean_text_chunk_with_llm_def)

lemma length_clean_chunks: "length (fst (clean_chunks llm s cs)) = length cs"
proof (induction cs arbitrary: s)
  case Nil
  show ?case by simp
next
  case (Cons c cs)
  obtain x s1 where x: "clean_text_chunk_with_llm llm s c = (x, s1)" by fastforce
  obtain xs s2 where xs: "clean_chunks llm s1 cs = (xs, s2)" by fastforce
  from Cons [of s1] x xs show ?case by simp
qed

lemma clean_chunks_fail_nth:
  "i < length cs \<Longrightarrow> \<forall>s'. fst (llm s' (cs ! i)) = None \<Longrightarrow>
     fst (clean_chunks llm s cs) ! i = cs ! i"
proof (induction cs arbitrary: s i)
  case Nil
  then show ?case by simp
next
  case (Cons c cs)
  obtain x s1 where x: "clean_text_chunk_with_llm llm s c = (x, s1)" by fastforce
  obtain xs s2 where xs: "clean_chunks llm s1 cs = (xs, s2)" by fastforce
  show ?case
  proof (cases i)
    case 0
    with Cons.prems have "fst (llm s c) = None" by simp
    with clean_chunk_fail [of llm s c] x xs 0 show ?thesis by simp
  next
    case (Suc j)
    with Cons.prems have "j < length cs" "\<forall>s'. fst (llm s' (cs ! j)) = None" by simp_all
    from Cons.IH [OF this, of s1] x xs Suc show ?thesis by simp
  qed
qed

lemma clean_chunks_all_fail:
  assumes "\<forall>s' c. fst (llm s' c) = None"
  shows "fst (clean_chunks llm s cs) = cs"
proof (rule nth_equalityI)
  show "length (fst (clean_chunks llm s cs)) = length cs" by (rule length_clean_chunks)
next
  fix i assume "i < length (fst (clean_chunks llm s cs))"
  then have "i < length cs" by (simp add: length_clean_chunks)
  then show "fst (clean_chunks llm s cs) ! i = cs ! i"
    using assms by (intro clean_chunks_fail_nth) auto
qed

lemma prefix_merge_step: "prefix acc (merge_step ov acc c)"
  by (simp add: merge_step_def split: option.split)

lemma prefix_foldl_merge_step: "prefix acc (foldl (merge_step ov) acc cs)"
proof (induction cs arbitrary: acc)
  case Nil
  show ?case by simp
next
  case (Cons c cs)
  from prefix_merge_step Cons [of "merge_step ov acc c"] show ?case
    by (metis foldl_Cons prefix_order.order_trans)
qed

lemma merge_eq_Nil: "merge_chunks_with_overlap cs ov = [] \<Longrightarrow> cs = [] \<or> hd cs = []"
proof (cases cs)
  case Nil
  then show ?thesis by simp
next
  case (Cons c cs')
  assume "merge_chunks_with_overlap cs ov = []"
  with Cons have "foldl (merge_step ov) c cs' = []" by (simp add: merge_cons)
  with prefix_foldl_merge_step [of c ov cs'] have "c = []" by simp
  with Cons show ?thesis by simp
qed

lemma assemble_no_empty_chunk: "[] \<notin> set (assemble count m ps)"
proof
  assume e: "[] \<in> set (assemble count m ps)"
  from assemble_groups [of count m ps] obtain gs where
    gs: "assemble count m ps = map render gs" "concat gs = segments count m ps" "[] \<notin> set gs"
    by blast
  from e gs(1) obtain g where g: "g \<in> set gs" "render g = []" by auto
  from g(1) gs(2) segments_nonempty [of count m ps] have "\<forall>x\<in>set g. seg_text x \<noteq> []"
    by (metis UN_I set_concat)
  from render_eq_Nil [OF this] g gs(3) show False by auto
qed

lemma extract_fst:
  "fst (extract_text_from_pdf llm count s raw m) =
     merge_chunks_with_overlap
       (fst (clean_chunks llm s (split_text_into_chunks count (remove_references_section raw) m)))
       100"
proof (cases "raw = []")
  case True
  have "split_text_into_chunks count [] m = []"
    by (rule split_text_blank) simp
  with True show ?thesis by (simp add: extract_text_from_pdf_def)
next
  case False
  then show ?thesis
    by (simp add: extract_text_from_pdf_def Let_def split: prod.split)
qed

lemma snd_clean_chunk: "snd (clean_text_chunk_with_llm llm s chunk) = snd (llm s chunk)"
  by (cases "llm s chunk"; cases "fst (llm s chunk)")
     (auto simp: clean_text_chunk_with_llm_def)

lemma clean_chunk_ok:
  "fst (llm s chunk) = Some r \<Longrightarrow> fst (clean_text_chunk_with_llm llm s chunk) = py_strip r"
  by (cases "llm s chunk") (simp add: clean_text_chunk_with_llm_def)

lemma clean_chunks_Cons:
  "clean_chunks llm s (c # cs) =
     (fst (clean_text_chunk_with_llm llm s c) # fst (clean_chunks llm (snd (llm s c)) cs),
      snd (clean_chunks llm (snd (llm s c)) cs))"
proof -
  obtain x s1 where x: "clean_text_chunk_with_llm llm s c = (x, s1)" by fastforce
  obtain xs s2 where xs: "clean_chunks llm s1 cs = (xs, s2)" by fastforce
  from x have "s1 = snd (llm s c)" using snd_clean_chunk [of llm s c] by simp
  with x xs show ?thesis by simp
qed

lemma snd_clean_chunks: "snd (clean_chunks llm s cs) = oracle_state llm s cs"
  by (induction cs arbitrary: s)
     (simp_all add: clean_chunks_Cons oracle_state_def del: clean_chunks.simps(2))

lemma clean_chunks_nth:
  "i < length cs \<Longrightarrow>
     fst (clean_chunks llm s cs) ! i =
       fst (clean_text_chunk_with_llm llm (oracle_state llm s (take i cs)) (cs ! i))"
proof (induction cs arbitrary: s i)
  case Nil
  then show ?case by simp
next
  case (Cons c cs)
  show ?case
  proof (cases i)
    case 0
    then show ?thesis
      by (simp add: clean_chunks_Cons oracle_state_def del: clean_chunks.simps(2))
  next
    case (Suc j)
    with Cons.prems have "j < length cs" by simp
    from Cons.IH [OF this, of "snd (llm s c)"] Suc show ?thesis
      by (simp add: clean_chunks_Cons oracle_state_def del: clean_chunks.simps(2))
  qed
qed

lemma extract_eq:
  "extract_text_from_pdf llm count s raw m =
     (merge_chunks_with_overlap
        (fst (clean_chunks llm s (split_text_into_chunks count (remove_references_section raw) m)))
        100,
      snd (clean_chunks llm s (split_text_into_chunks count (remove_references_section raw) m)))"
proof (cases "raw = []")
  case True
  have "split_text_into_chunks count [] m = []"
    by (rule split_text_blank) simp
  with True show ?thesis by (simp add: extract_text_from_pdf_def)
next
  case False
  then show ?thesis
    by (simp add: extract_text_from_pdf_def Let_def split: prod.split)
qed

text \<open>
  Claim C6. When the call for a chunk fails, the cleaning step returns the chunk it was
  given. The loop goes on after a failure: the transform is called on every chunk, in
  order, each call in the state the calls before it left; there are as many cleaned
  chunks as chunks; at each position stands the chunk itself when its call failed and
  the trimmed reply when it succeeded. The pipeline returns the merge of these cleaned
  chunks. With a transform that always fails, that is the merge of the original chunks,
  which is not empty when there is a chunk.
\<close>

theorem transform_failure_fallback:
  "(fst (llm s chunk) = None \<longrightarrow> fst (clean_text_chunk_with_llm llm s chunk) = chunk) \<and>
   length (fst (clean_chunks llm s cs)) = length cs \<and>
   (\<forall>i<length cs. (\<forall>s'. fst (llm s' (cs ! i)) = None) \<longrightarrow>
      fst (clean_chunks llm s cs) ! i = cs ! i) \<and>
   ((\<forall>s' c. fst (llm s' c) = None) \<longrightarrow>
      fst (extract_text_from_pdf llm count s raw m) =
        merge_chunks_with_overlap
          (split_text_into_chunks count (remove_references_section raw) m) 100 \<and>
      (split_text_into_chunks count (remove_references_section raw) m \<noteq> [] \<longrightarrow>
         fst (extract_text_from_pdf llm count s raw m) \<noteq> [])) \<and>
   (\<forall>i<length cs. fst (llm (oracle_state llm s (take i cs)) (cs ! i)) = None \<longrightarrow>
      fst (clean_chunks llm s cs) ! i = cs ! i) \<and>
   (\<forall>i<length cs. \<forall>r. fst (llm (oracle_state llm s (take i cs)) (cs ! i)) = Some r \<longrightarrow>
      fst (clean_chunks llm s cs) ! i = py_strip r) \<and>
   snd (clean_chunks llm s cs) = oracle_state llm s cs \<and>
   extract_text_from_pdf llm count s raw m =
     (merge_chunks_with_overlap
        (fst (clean_chunks llm s (split_text_into_chunks count (remove_references_section raw) m)))
        100,
      oracle_state llm s (split_text_into_chunks count (remove_references_section raw) m))"
proof -
  let ?cs = "split_text_into_chunks count (remove_references_section raw) m"
  have 4: "fst (extract_text_from_pdf llm count s raw m) = merge_chunks_with_overlap ?cs 100 \<and>
      (?cs \<noteq> [] \<longrightarrow> fst (extract_text_from_pdf llm count s raw m) \<noteq> [])"
    if fail: "\<forall>s' c. fst (llm s' c) = None"
  proof -
    from clean_chunks_all_fail [OF fail] extract_fst [of llm count s raw m]
    have e: "fst (extract_text_from_pdf llm count s raw m) = merge_chunks_with_overlap ?cs 100"
      by simp
    have "merge_chunks_with_overlap ?cs 100 \<noteq> []" if ne: "?cs \<noteq> []"
    proof
      assume "merge_chunks_with_overlap ?cs 100 = []"
      from merge_eq_Nil [OF this] ne have "hd ?cs = []" by simp
      with ne have "[] \<in> set ?cs" by (metis hd_in_set)
      with assemble_no_empty_chunk show False
        by (simp add: split_text_into_chunks_def)
    qed
    with e show ?thesis by simp
  qed
  have 5: "fst (clean_chunks llm s cs) ! i = cs ! i"
    if "i < length cs" "fst (llm (oracle_state llm s (take i cs)) (cs ! i)) = None" for i
    using clean_chunks_nth [OF that(1), of llm s]
      clean_chunk_fail [of llm "oracle_state llm s (take i cs)" "cs ! i"] that(2) by simp
  have 6: "fst (clean_chunks llm s cs) ! i = py_strip r"
    if "i < length cs" "fst (llm (oracle_state llm s (take i cs)) (cs ! i)) = Some r" for i r
    using clean_chunks_nth [OF that(1), of llm s]
      clean_chunk_ok [of llm "oracle_state llm s (take i cs)" "cs ! i" r] that(2) by simp
  have 7: "snd (clean_chunks llm s cs) = oracle_state llm s cs"
    by (rule snd_clean_chunks)
  have 8: "extract_text_from_pdf llm count s raw m =
     (merge_chunks_with_overlap (fst (clean_chunks llm s ?cs)) 100, oracle_state llm s ?cs)"
    using extract_eq [of llm count s raw m] by (simp add: snd_clean_chunks)
  from clean_chunk_fail [of llm s chunk] length_clean_chunks [of llm s cs]
    clean_chunks_fail_nth [of _ cs llm s] 4 5 6 7 8
  show ?thesis by blast
qed

theorem transform_failure_fallback_witness:
  "fst (clean_text_chunk_with_llm (\<lambda>s c. (None, Suc s)) 0 (str '' ab'')) = str '' ab'' \<and>
   fst (extract_text_from_pdf (\<lambda>s c. (None, Suc s)) length 0 (str ''ab\<newline>\<newline>cd'') 2) = str ''abcd'' \<and>
   fst (llm_fail_ab 0 (str ''ab'')) = None \<and>
   fst (llm_fail_ab 1 (str ''cd'')) = Some (str '' X '') \<and>
   extract_text_from_pdf llm_fail_ab length 0 (str ''ab\<newline>\<newline>cd'') 2 = (str ''abX'', 2)"
proof -
  let ?llm = "\<lambda>(s::nat) (c::pystr). (None :: pystr option, Suc s)"
  let ?t = "str ''ab\<newline>\<newline>cd''"
  let ?cs = "[str ''ab'', str ''cd'']"
  have f: "\<forall>s' c. fst (?llm s' c) = None" by simp
  have cs: "split_text_into_chunks length (remove_references_section ?t) 2 = ?cs"
    by (simp add: remove_references_section_def REFERENCES_def chunk_eval
          del: py_split_nn.simps(3))
  have m1: "merge_chunks_with_overlap ?cs 100 = str ''abcd''"
    by (simp add: merge_step_def str_def py_suffix_def eval_nat_numeral)
  note u = transform_failure_fallback [of ?llm 0 "str '' ab''" "[]" length ?t 2]
  have "fst (?llm 0 (str '' ab'')) = None" by simp
  with u [THEN conjunct1]
  have a1: "fst (clean_text_chunk_with_llm ?llm 0 (str '' ab'')) = str '' ab''"
    by (rule mp)
  from u [THEN conjunct2, THEN conjunct2, THEN conjunct2, THEN conjunct1] f
  have "fst (extract_text_from_pdf ?llm length 0 ?t 2) =
      merge_chunks_with_overlap (split_text_into_chunks length (remove_references_section ?t) 2) 100"
    by (rule mp [THEN conjunct1])
  then have a2: "fst (extract_text_from_pdf ?llm length 0 ?t 2) = str ''abcd''"
    unfolding cs m1 .
  have st: "oracle_state llm_fail_ab 0 (take 0 ?cs) = 0"
    "oracle_state llm_fail_ab 0 (take 1 ?cs) = 1"
    "oracle_state llm_fail_ab 0 ?cs = 2"
    by (simp_all add: oracle_state_def llm_fail_ab_def)
  have l0: "fst (llm_fail_ab 0 (str ''ab'')) = None"
    by (simp add: llm_fail_ab_def)
  have l1: "fst (llm_fail_ab 1 (str ''cd'')) = Some (str '' X '')"
    by (simp add: llm_fail_ab_def str_def)
  note t = transform_failure_fallback [of llm_fail_ab 0 "[]" ?cs length ?t 2]
  note t2 = t [THEN conjunct2, THEN conjunct1]
  note t5 = t [THEN conjunct2, THEN conjunct2, THEN conjunct2, THEN conjunct2, THEN conjunct1]
  note t6 = t [THEN conjunct2, THEN conjunct2, THEN conjunct2, THEN conjunct2, THEN conjunct2,
    THEN conjunct1]
  note t8 = t [THEN conjunct2, THEN conjunct2, THEN conjunct2, THEN conjunct2, THEN conjunct2,
    THEN conjunct2, THEN conjunct2]
  from t2 have len: "length (fst (clean_chunks llm_fail_ab 0 ?cs)) = 2" by simp
  have "fst (llm_fail_ab (oracle_state llm_fail_ab 0 (take 0 ?cs)) (?cs ! 0)) = None"
    unfolding st using l0 by simp
  with t5 [rule_format, of 0] have c0: "fst (clean_chunks llm_fail_ab 0 ?cs) ! 0 = str ''ab''"
    by simp
  have "fst (llm_fail_ab (oracle_state llm_fail_ab 0 (take 1 ?cs)) (?cs ! 1)) = Some (str '' X '')"
    unfolding st using l1 by simp
  with t6 [rule_format, of 1 "str '' X ''"]
  have "fst (clean_chunks llm_fail_ab 0 ?cs) ! 1 = py_strip (str '' X '')"
    by simp
  moreover have "py_strip (str '' X '') = str ''X''"
    by (simp add: py_strip_def str_def py_isspace_def)
  ultimately have c1: "fst (clean_chunks llm_fail_ab 0 ?cs) ! 1 = str ''X''" by simp
  have cl: "fst (clean_chunks llm_fail_ab 0 ?cs) = [str ''ab'', str ''X'']"
  proof (rule nth_equalityI)
    show "length (fst (clean_chunks llm_fail_ab 0 ?cs)) = length [str ''ab'', str ''X'']"
      using len by simp
  next
    fix i assume "i < length (fst (clean_chunks llm_fail_ab 0 ?cs))"
    with len have "i = 0 \<or> i = 1" by auto
    with c0 c1 show "fst (clean_chunks llm_fail_ab 0 ?cs) ! i = [str ''ab'', str ''X''] ! i"
      by auto
  qed
  have m2: "merge_chunks_with_overlap [str ''ab'', str ''X''] 100 = str ''abX''"
    by (simp add: merge_step_def str_def py_suffix_def eval_nat_numeral)
  from t8 have "extract_text_from_pdf llm_fail_ab length 0 ?t 2 = (str ''abX'', 2)"
    unfolding cs cl m2 st .
  with a1 a2 l0 l1 show ?thesis by (intro conjI)
qed

section \<open>A paragraph of one oversized sentence\<close>

lemma foldl_sentence_step_blank:
  "\<forall>s\<in>set ss. py_strip s = [] \<Longrightarrow> foldl (sentence_step count m) st ss = st"
  by (induction ss arbitrary: st) (simp_all add: sentence_step_def)

lemma fold_single_sentence:
  "current_chunk st = [] \<Longrightarrow> filter (\<lambda>s. py_strip s \<noteq> []) ss = [s] \<Longrightarrow>
     foldl (sentence_step count m) st ss = st\<lparr>current_chunk := s\<rparr>"
proof (induction ss arbitrary: st)
  case Nil
  then show ?case by simp
next
  case (Cons x ss)
  show ?case
  proof (cases "py_strip x = []")
    case True
    with Cons show ?thesis by (simp add: sentence_step_def)
  next
    case False
    with Cons.prems have x: "x = s" and rest: "\<forall>s\<in>set ss. py_strip s = []"
      by (auto simp: filter_empty_conv)
    from False Cons.prems(1) have "sentence_step count m st x = st\<lparr>current_chunk := x\<rparr>"
      by (simp add: sentence_step_def Let_def)
    with x rest show ?thesis by (simp add: foldl_sentence_step_blank)
  qed
qed

lemma single_sentence_nonblank:
  assumes "filter (\<lambda>s. py_strip s \<noteq> []) (split_sentences p) = [s]"
  shows "py_strip p \<noteq> []"
proof -
  have "s \<in> set (filter (\<lambda>s. py_strip s \<noteq> []) (split_sentences p))"
    by (simp add: assms)
  then have "s \<in> set (split_sentences p)" "py_strip s \<noteq> []"
    by simp_all
  then obtain c where "c \<in> set s" "\<not> py_isspace c" by (auto simp: py_strip_eq_Nil_iff)
  moreover from \<open>s \<in> set (split_sentences p)\<close> have "set s \<subseteq> set (concat (split_sentences p))"
    by auto
  ultimately show ?thesis
    by (auto simp: concat_split_sentences py_strip_eq_Nil_iff)
qed

lemma paragraph_step_single_sentence:
  assumes big: "int (count p) > m"
    and one: "filter (\<lambda>s. py_strip s \<noteq> []) (split_sentences p) = [s]"
  shows "paragraph_step count m st p = \<lparr>chunks = final_chunks st, current_chunk = s\<rparr>"
proof -
  let ?st1 = "if current_chunk st \<noteq> []
              then \<lparr>chunks = chunks st @ [current_chunk st], current_chunk = []\<rparr> else st"
  have c: "current_chunk ?st1 = []" and ch: "chunks ?st1 = final_chunks st"
    by (simp_all add: final_chunks_def)
  from single_sentence_nonblank [OF one] big
  have "paragraph_step count m st p = foldl (sentence_step count m) ?st1 (split_sentences p)"
    by (simp add: paragraph_step_def Let_def)
  also from fold_single_sentence [OF c one] have "\<dots> = ?st1\<lparr>current_chunk := s\<rparr>" .
  also from ch have "\<dots> = \<lparr>chunks = final_chunks st, current_chunk = s\<rparr>" by simp
  finally show ?thesis .
qed

lemma chunks_sentence_step: "prefix (chunks st) (chunks (sentence_step count m st s))"
  by (simp add: sentence_step_def Let_def)

lemma chunks_foldl_sentence_step:
  "prefix (chunks st) (chunks (foldl (sentence_step count m) st ss))"
proof (induction ss arbitrary: st)
  case Nil
  show ?case by simp
next
  case (Cons s ss)
  from chunks_sentence_step Cons [of "sentence_step count m st s"] show ?case
    by (metis foldl_Cons prefix_order.order_trans)
qed

lemma chunks_paragraph_step: "prefix (chunks st) (chunks (paragraph_step count m st p))"
proof (cases "py_strip p \<noteq> [] \<and> int (count p) > m")
  case True
  let ?st1 = "if current_chunk st \<noteq> []
              then \<lparr>chunks = chunks st @ [current_chunk st], current_chunk = []\<rparr> else st"
  have "prefix (chunks st) (chunks ?st1)" by simp
  moreover have "prefix (chunks ?st1) (chunks (foldl (sentence_step count m) ?st1 (split_sentences p)))"
    by (rule chunks_foldl_sentence_step)
  moreover from True
  have "paragraph_step count m st p = foldl (sentence_step count m) ?st1 (split_sentences p)"
    by (simp add: paragraph_step_def Let_def)
  ultimately show ?thesis by (metis prefix_order.order_trans)
next
  case False
  then show ?thesis by (auto simp add: paragraph_step_def Let_def)
qed

lemma buffer_kept_paragraph_step:
  assumes k: "buffer_kept cur0 chunks0 st" and ne: "cur0 \<noteq> []"
  shows "buffer_kept cur0 chunks0 (paragraph_step count m st p)"
proof (cases "py_strip p = []")
  case True
  with k show ?thesis by (simp add: paragraph_step_def)
next
  case nb: False
  from k consider
    (buf) c where "chunks st = chunks0" "current_chunk st = cur0 @ c"
    | (out) c where "prefix (chunks0 @ [cur0 @ c]) (chunks st)"
    unfolding buffer_kept_def by (auto simp: prefix_def)
  then show ?thesis
  proof cases
    case buf
    with ne have cur: "current_chunk st \<noteq> []" by simp
    show ?thesis
    proof (cases "int (count p) > m")
      case True
      let ?st1 = "\<lparr>chunks = chunks st @ [current_chunk st], current_chunk = []\<rparr>"
      from nb True cur
      have "paragraph_step count m st p = foldl (sentence_step count m) ?st1 (split_sentences p)"
        by (simp add: paragraph_step_def Let_def)
      with chunks_foldl_sentence_step [of ?st1 count m "split_sentences p"] buf
      have "prefix (chunks0 @ [cur0 @ c]) (chunks (paragraph_step count m st p))" by simp
      then show ?thesis unfolding buffer_kept_def by blast
    next
      case False
      show ?thesis
      proof (cases "int (count (current_chunk st @ [10, 10] @ p)) \<le> m")
        case True
        with nb False cur buf show ?thesis
          by (simp add: paragraph_step_def Let_def buffer_kept_def)
      next
        case no: False
        with nb False cur buf have "chunks (paragraph_step count m st p) = chunks0 @ [cur0 @ c]"
          by (simp add: paragraph_step_def Let_def)
        then show ?thesis unfolding buffer_kept_def by auto
      qed
    qed
  next
    case out
    have "prefix (chunks st) (chunks (paragraph_step count m st p))"
      by (rule chunks_paragraph_step)
    with out have "prefix (chunks0 @ [cur0 @ c]) (chunks (paragraph_step count m st p))"
      by (rule prefix_order.order_trans)
    then show ?thesis unfolding buffer_kept_def by blast
  qed
qed

lemma buffer_kept_foldl:
  "buffer_kept cur0 chunks0 st \<Longrightarrow> cur0 \<noteq> [] \<Longrightarrow>
     buffer_kept cur0 chunks0 (foldl (paragraph_step count m) st ps)"
  by (induction ps arbitrary: st) (simp_all add: buffer_kept_paragraph_step)

lemma buffer_kept_final:
  assumes k: "buffer_kept cur0 chunks0 st" and ne: "cur0 \<noteq> []"
  shows "\<exists>c cs. final_chunks st = chunks0 @ (cur0 @ c) # cs"
proof -
  from k consider
    (buf) c where "chunks st = chunks0" "current_chunk st = cur0 @ c"
    | (out) c where "prefix (chunks0 @ [cur0 @ c]) (chunks st)"
    unfolding buffer_kept_def by (auto simp: prefix_def)
  then show ?thesis
  proof cases
    case buf
    with ne show ?thesis by (simp add: final_chunks_def)
  next
    case out
    then obtain r where "chunks st = chunks0 @ [cur0 @ c] @ r" by (auto simp: prefix_def)
    then show ?thesis by (simp add: final_chunks_def)
  qed
qed

lemma buffer_exact_paragraph_step:
  assumes k: "buffer_exact cur0 chunks0 st" and ne: "cur0 \<noteq> []"
    and big: "\<forall>x. int (count (cur0 @ x)) > m"
  shows "buffer_exact cur0 chunks0 (paragraph_step count m st p)"
proof (cases "py_strip p = []")
  case True
  with k show ?thesis by (simp add: paragraph_step_def)
next
  case nb: False
  from k consider
    (buf) "chunks st = chunks0" "current_chunk st = cur0"
    | (out) "prefix (chunks0 @ [cur0]) (chunks st)"
    unfolding buffer_exact_def by blast
  then show ?thesis
  proof cases
    case buf
    with ne have cur: "current_chunk st \<noteq> []" by simp
    show ?thesis
    proof (cases "int (count p) > m")
      case True
      let ?st1 = "\<lparr>chunks = chunks st @ [current_chunk st], current_chunk = []\<rparr>"
      from nb True cur
      have "paragraph_step count m st p = foldl (sentence_step count m) ?st1 (split_sentences p)"
        by (simp add: paragraph_step_def Let_def)
      with chunks_foldl_sentence_step [of ?st1 count m "split_sentences p"] buf
      have "prefix (chunks0 @ [cur0]) (chunks (paragraph_step count m st p))" by simp
      then show ?thesis unfolding buffer_exact_def by blast
    next
      case False
      from big buf have "\<not> int (count (current_chunk st @ [10, 10] @ p)) \<le> m"
        by (simp add: not_le)
      with nb False cur buf have "chunks (paragraph_step count m st p) = chunks0 @ [cur0]"
        by (simp add: paragraph_step_def Let_def)
      then show ?thesis unfolding buffer_exact_def by simp
    qed
  next
    case out
    have "prefix (chunks st) (chunks (paragraph_step count m st p))"
      by (rule chunks_paragraph_step)
    with out have "prefix (chunks0 @ [cur0]) (chunks (paragraph_step count m st p))"
      by (rule prefix_order.order_trans)
    then show ?thesis unfolding buffer_exact_def by blast
  qed
qed

lemma buffer_exact_foldl:
  "buffer_exact cur0 chunks0 st \<Longrightarrow> cur0 \<noteq> [] \<Longrightarrow> \<forall>x. int (count (cur0 @ x)) > m \<Longrightarrow>
     buffer_exact cur0 chunks0 (foldl (paragraph_step count m) st ps)"
  by (induction ps arbitrary: st) (simp_all add: buffer_exact_paragraph_step)

lemma buffer_exact_final:
  assumes k: "buffer_exact cur0 chunks0 st" and ne: "cur0 \<noteq> []"
  shows "\<exists>cs. final_chunks st = chunks0 @ cur0 # cs"
proof -
  from k consider
    (buf) "chunks st = chunks0" "current_chunk st = cur0"
    | (out) "prefix (chunks0 @ [cur0]) (chunks st)"
    unfolding buffer_exact_def by blast
  then show ?thesis
  proof cases
    case buf
    with ne show ?thesis by (simp add: final_chunks_def)
  next
    case out
    then obtain r where "chunks st = chunks0 @ [cur0] @ r" by (auto simp: prefix_def)
    then show ?thesis by (simp add: final_chunks_def)
  qed
qed

lemma single_sentence_split:
  "\<forall>c\<in>set (butlast p). \<not> is_terminal c \<Longrightarrow>
     split_sentences p = [p] \<or> split_sentences p = [p, []]"
proof (induction p)
  case Nil
  show ?case by simp
next
  case (Cons c cs)
  show ?case
  proof (cases "cs = []")
    case True
    then show ?thesis by (simp add: split_sentences_Cons)
  next
    case False
    with Cons.prems have "\<not> is_terminal c" "\<forall>c\<in>set (butlast cs). \<not> is_terminal c" by simp_all
    with Cons.IH show ?thesis by (auto simp: split_sentences_Cons)
  qed
qed

lemma single_sentence_filter:
  assumes "\<forall>c\<in>set (butlast p). \<not> is_terminal c" and "py_strip p \<noteq> []"
  shows "filter (\<lambda>s. py_strip s \<noteq> []) (split_sentences p) = [p]"
proof -
  have "py_strip [] = []" by (simp add: py_strip_def)
  with single_sentence_split [OF assms(1)] assms(2) show ?thesis by auto
qed

text \<open>
  Claim C4. Let \<open>p\<close> be a paragraph over the budget that has exactly one non-blank
  sentence \<open>s\<close>. Whatever paragraphs come before it, after \<open>p\<close> the chunks of the
  paragraphs before it are finished and the buffer is exactly \<open>s\<close>: the sentence is
  neither cut nor divided. Whatever comes after it, \<open>s\<close> is emitted whole, at the start
  of the next chunk, and as a chunk of its own when every text that starts with \<open>s\<close>
  exceeds the budget. When \<open>p\<close> is the only paragraph, the chunks are \<open>[s]\<close>. When
  \<open>p\<close> has no sentence-terminal mark except possibly its last character (and no blank
  line), \<open>s\<close> is \<open>p\<close> itself and the text \<open>p\<close> gives the single chunk \<open>p\<close>.
\<close>

theorem oversized_single_sentence:
  assumes big: "int (count p) > m"
    and one: "filter (\<lambda>s. py_strip s \<noteq> []) (split_sentences p) = [s]"
  shows "foldl (paragraph_step count m) \<lparr>chunks = [], current_chunk = []\<rparr> (pre @ [p]) =
           \<lparr>chunks = assemble count m pre, current_chunk = s\<rparr> \<and>
         (py_split_nn t = pre @ [p] @ post \<longrightarrow>
            (\<exists>c cs. split_text_into_chunks count t m = assemble count m pre @ (s @ c) # cs)) \<and>
         (py_split_nn t = [p] \<longrightarrow> split_text_into_chunks count t m = [s]) \<and>
         (\<not> sublist [10, 10] p \<and> (\<forall>c\<in>set (butlast p). \<not> is_terminal c) \<longrightarrow>
            s = p \<and> split_text_into_chunks count p m = [p]) \<and>
         ((\<forall>x. int (count (s @ x)) > m) \<and> py_split_nn t = pre @ [p] @ post \<longrightarrow>
            (\<exists>cs. split_text_into_chunks count t m = assemble count m pre @ s # cs))"
proof -
  let ?init = "\<lparr>chunks = [], current_chunk = []\<rparr>"
  let ?st = "\<lparr>chunks = assemble count m pre, current_chunk = s\<rparr>"
  have "s \<in> set (filter (\<lambda>s. py_strip s \<noteq> []) (split_sentences p))"
    by (simp add: one)
  then have sne: "s \<noteq> []"
    by (auto simp: py_strip_def)
  have a: "foldl (paragraph_step count m) ?init (ps @ [p]) =
      \<lparr>chunks = assemble count m ps, current_chunk = s\<rparr>" for ps
    using paragraph_step_single_sentence [where count = count and m = m and p = p and s = s,
        OF big one]
    by (simp add: assemble_def)
  have b: "\<exists>c cs. assemble count m (pre @ [p] @ post) = assemble count m pre @ (s @ c) # cs"
    for post
  proof -
    have "buffer_kept s (assemble count m pre) ?st" by (simp add: buffer_kept_def)
    from buffer_kept_final [OF buffer_kept_foldl [OF this sne, of count m post] sne]
    obtain c cs where
      "final_chunks (foldl (paragraph_step count m) ?st post) = assemble count m pre @ (s @ c) # cs"
      by blast
    moreover have "assemble count m (pre @ [p] @ post) =
        final_chunks (foldl (paragraph_step count m) ?st post)"
      using a [of pre] by (simp add: assemble_def)
    ultimately show ?thesis by metis
  qed
  have c: "assemble count m [p] = [s]"
    using a [of "[]"] sne by (simp add: assemble_def final_chunks_def)
  have d: "s = p \<and> split_text_into_chunks count p m = [p]"
    if nn: "\<not> sublist [10, 10] p" and nt: "\<forall>c\<in>set (butlast p). \<not> is_terminal c"
  proof -
    from single_sentence_filter [OF nt single_sentence_nonblank [OF one]] one
    have "s = p" by simp
    with c py_split_nn_single [OF nn] show ?thesis
      by (simp add: split_text_into_chunks_def)
  qed
  have e: "\<exists>cs. assemble count m (pre @ [p] @ post) = assemble count m pre @ s # cs"
    if rob: "\<forall>x. int (count (s @ x)) > m" for post
  proof -
    have "buffer_exact s (assemble count m pre) ?st" by (simp add: buffer_exact_def)
    from buffer_exact_final [OF buffer_exact_foldl [OF this sne rob, where ps = post] sne]
    obtain cs where
      "final_chunks (foldl (paragraph_step count m) ?st post) = assemble count m pre @ s # cs"
      by blast
    moreover have "assemble count m (pre @ [p] @ post) =
        final_chunks (foldl (paragraph_step count m) ?st post)"
      using a [of pre] by (simp add: assemble_def)
    ultimately show ?thesis by metis
  qed
  from a [of pre] b c d e show ?thesis
    by (simp add: split_text_into_chunks_def)
qed

theorem oversized_single_sentence_witness:
  "split_text_into_chunks length (str ''ab\<newline>\<newline>cdefg.\<newline>\<newline>hi'') 3
     = [str ''ab'', str ''cdefg.'', str ''hi''] \<and>
   split_text_into_chunks length (str ''cdefg.'') 3 = [str ''cdefg.''] \<and>
   (\<forall>x. int (length (str ''cdefg.'' @ x)) > 3) \<and>
   (\<exists>cs. split_text_into_chunks length (str ''ab\<newline>\<newline>cdefg.\<newline>\<newline>hi'') 3
      = assemble length 3 [str ''ab''] @ str ''cdefg.'' # cs)"
proof -
  let ?p = "str ''cdefg.''" and ?t = "str ''ab\<newline>\<newline>cdefg.\<newline>\<newline>hi''"
  have big: "int (length ?p) > 3" by (simp add: str_def)
  have one: "filter (\<lambda>s. py_strip s \<noteq> []) (split_sentences ?p) = [?p]"
    by (simp add: chunk_eval)
  have sp: "py_split_nn ?t = [str ''ab''] @ [?p] @ [str ''hi'']"
    by (simp add: str_def py_split_nn_eval del: py_split_nn.simps(3))
  have nn: "\<not> sublist [10, 10] ?p" by (simp add: str_def sublist_Cons_right)
  have nt: "\<forall>c\<in>set (butlast ?p). \<not> is_terminal c" by (simp add: str_def is_terminal_def)
  have rob: "\<forall>x. int (length (?p @ x)) > 3" by (simp add: str_def)
  from oversized_single_sentence [where count = length and m = 3 and p = ?p and s = ?p
      and pre = "[str ''ab'']" and t = ?t and post = "[str ''hi'']", OF big one] sp nn nt rob
  obtain c cs cs' where
    t: "split_text_into_chunks length ?t 3 = assemble length 3 [str ''ab''] @ (?p @ c) # cs"
    and p: "split_text_into_chunks length ?p 3 = [?p]"
    and e: "split_text_into_chunks length ?t 3 = assemble length 3 [str ''ab''] @ ?p # cs'"
    by blast
  have "split_text_into_chunks length ?t 3 = [str ''ab'', ?p, str ''hi'']"
    by (simp add: chunk_eval del: py_split_nn.simps(3))
  with t p e rob show ?thesis by blast
qed

section \<open>The pipeline with the identity transform\<close>

lemma clean_chunks_identity: "clean_chunks identity_llm s cs = (map py_strip cs, s)"
  by (induction cs) (simp_all add: clean_text_chunk_with_llm_def identity_llm_def)

lemma find_overlap_NoneI:
  "(\<And>k. 0 < k \<Longrightarrow> k \<le> n \<Longrightarrow> py_suffix k r \<noteq> take k c) \<Longrightarrow> find_overlap r c n = None"
  by (induction n) simp_all

lemma merge_step_no_overlap:
  assumes "\<And>L. 0 < L \<Longrightarrow> int L \<le> ov \<Longrightarrow> L \<le> length c \<Longrightarrow> \<not> suffix (take L c) acc"
  shows "merge_step ov acc c = acc @ c"
proof -
  let ?n = "nat (min ov (min (int (length acc)) (int (length c))))"
  have "py_suffix k acc \<noteq> take k c" if "0 < k" "k \<le> ?n" for k
  proof -
    from that have k: "k \<le> length acc" "k \<le> length c" "int k \<le> ov" by auto
    from assms [OF that(1) k(3) k(2)] py_suffix_eq_take_iff [OF k(1,2)] show ?thesis by simp
  qed
  then have "find_overlap acc c ?n = None" by (rule find_overlap_NoneI)
  then show ?thesis by (simp add: merge_step_def)
qed

lemma merge_snoc:
  "xs \<noteq> [] \<Longrightarrow>
     merge_chunks_with_overlap (xs @ [x]) ov = merge_step ov (merge_chunks_with_overlap xs ov) x"
  by (cases xs) (simp_all add: merge_cons)

lemma merge_no_overlap:
  "(\<And>i L. 0 < i \<Longrightarrow> i < length cs \<Longrightarrow> 0 < L \<Longrightarrow> int L \<le> ov \<Longrightarrow> L \<le> length (cs ! i) \<Longrightarrow>
      \<not> suffix (take L (cs ! i)) (concat (take i cs))) \<Longrightarrow>
   merge_chunks_with_overlap cs ov = concat cs"
proof (induction cs rule: rev_induct)
  case Nil
  show ?case by simp
next
  case (snoc x xs)
  show ?case
  proof (cases "xs = []")
    case True
    then show ?thesis by simp
  next
    case False
    have "\<not> suffix (take L (xs ! i)) (concat (take i xs))"
      if "0 < i" "i < length xs" "0 < L" "int L \<le> ov" "L \<le> length (xs ! i)" for i L
      using snoc.prems [of i L] that by (simp add: nth_append)
    then have ih: "merge_chunks_with_overlap xs ov = concat xs" by (rule snoc.IH)
    have "\<not> suffix (take L x) (concat xs)" if "0 < L" "int L \<le> ov" "L \<le> length x" for L
      using snoc.prems [of "length xs" L] that False by simp
    then have "merge_step ov (concat xs) x = concat xs @ x" by (rule merge_step_no_overlap)
    with ih False show ?thesis by (simp add: merge_snoc)
  qed
qed

lemma suffix_merge_step: "suffix c (merge_step ov acc c)"
proof -
  from merge_step_longest [of ov acc c] obtain L where
    m: "merge_step ov acc c = acc @ drop L c" and s: "0 < L \<longrightarrow> suffix (take L c) acc"
    by blast
  show ?thesis
  proof (cases "L = 0")
    case True
    with m show ?thesis by (simp add: suffix_def)
  next
    case False
    with s obtain p where "acc = p @ take L c" by (auto simp: suffix_def)
    with m have "merge_step ov acc c = p @ c" by simp
    then show ?thesis by (simp add: suffix_def)
  qed
qed

lemma sublist_foldl_merge_step:
  "c \<in> set cs \<Longrightarrow> sublist c (foldl (merge_step ov) acc cs)"
proof (induction cs arbitrary: acc)
  case Nil
  then show ?case by simp
next
  case (Cons x cs)
  show ?case
  proof (cases "c = x")
    case True
    have "sublist c (merge_step ov acc c)"
      using suffix_merge_step by (rule suffix_imp_sublist)
    moreover have "sublist (merge_step ov acc c) (foldl (merge_step ov) (merge_step ov acc c) cs)"
      using prefix_foldl_merge_step by (rule prefix_imp_sublist)
    ultimately show ?thesis using True
      by (metis foldl_Cons sublist_order.order_trans)
  next
    case False
    with Cons show ?thesis by simp
  qed
qed

lemma sublist_merge: "c \<in> set cs \<Longrightarrow> sublist c (merge_chunks_with_overlap cs ov)"
proof (cases cs)
  case Nil
  assume "c \<in> set cs"
  with Nil show ?thesis by simp
next
  case (Cons x xs)
  assume c: "c \<in> set cs"
  show ?thesis
  proof (cases "c = x")
    case True
    with Cons prefix_foldl_merge_step [of x ov xs] show ?thesis
      by (simp add: merge_cons prefix_imp_sublist)
  next
    case False
    with c Cons have "c \<in> set xs" by simp
    from sublist_foldl_merge_step [OF this] Cons show ?thesis by (simp add: merge_cons)
  qed
qed

lemma nonws_concat_map_strip: "nonws (concat (map py_strip cs)) = nonws (concat cs)"
  by (induction cs) (simp_all add: nonws_strip)

text \<open>
  What the pipeline keeps under the identity transform. It returns the merge of the
  trimmed chunks. The chunking loses nothing but whitespace: the non-whitespace
  characters of the chunks are those of the text after the reference removal, in order.
  Every trimmed chunk stands in the output as contiguous text. When no chunk starts with
  a repetition (of at most 100 characters) of the end of the text merged so far, the
  non-whitespace characters of the output are exactly those of the text, in order.
\<close>

lemma identity_pipeline_content:
  "fst (extract_text_from_pdf identity_llm count s raw m) =
     merge_chunks_with_overlap
       (map py_strip (split_text_into_chunks count (remove_references_section raw) m)) 100 \<and>
   nonws (concat (split_text_into_chunks count (remove_references_section raw) m)) =
     nonws (remove_references_section raw) \<and>
   (\<forall>c\<in>set (split_text_into_chunks count (remove_references_section raw) m).
      sublist (py_strip c) (fst (extract_text_from_pdf identity_llm count s raw m))) \<and>
   ((\<forall>i L. 0 < i \<and> i < length (split_text_into_chunks count (remove_references_section raw) m) \<and>
        0 < L \<and> L \<le> 100 \<and>
        L \<le> length (py_strip (split_text_into_chunks count (remove_references_section raw) m ! i))
      \<longrightarrow> \<not> suffix
            (take L (py_strip (split_text_into_chunks count (remove_references_section raw) m ! i)))
            (concat (map py_strip
               (take i (split_text_into_chunks count (remove_references_section raw) m)))))
    \<longrightarrow> nonws (fst (extract_text_from_pdf identity_llm count s raw m)) =
          nonws (remove_references_section raw))"
proof -
  let ?cs = "split_text_into_chunks count (remove_references_section raw) m"
  let ?out = "fst (extract_text_from_pdf identity_llm count s raw m)"
  have 1: "?out = merge_chunks_with_overlap (map py_strip ?cs) 100"
    by (simp add: extract_fst clean_chunks_identity)
  have 2: "nonws (concat ?cs) = nonws (remove_references_section raw)"
    by (rule nonws_split_text)
  have 3: "\<forall>c\<in>set ?cs. sublist (py_strip c) ?out"
    unfolding 1 by (auto intro: sublist_merge)
  have 4: "nonws ?out = nonws (remove_references_section raw)"
    if h: "\<forall>i L. 0 < i \<and> i < length ?cs \<and> 0 < L \<and> L \<le> 100 \<and> L \<le> length (py_strip (?cs ! i))
      \<longrightarrow> \<not> suffix (take L (py_strip (?cs ! i))) (concat (map py_strip (take i ?cs)))"
  proof -
    have "merge_chunks_with_overlap (map py_strip ?cs) 100 = concat (map py_strip ?cs)"
    proof (rule merge_no_overlap)
      fix i L
      assume "0 < i" "i < length (map py_strip ?cs)" "0 < L" "int L \<le> 100"
        "L \<le> length (map py_strip ?cs ! i)"
      with h show "\<not> suffix (take L (map py_strip ?cs ! i)) (concat (take i (map py_strip ?cs)))"
        by (simp add: take_map)
    qed
    with 1 2 show ?thesis by (simp add: nonws_concat_map_strip)
  qed
  from 1 2 3 4 show ?thesis by blast
qed

text \<open>
  Claim C3. With the identity transform the pipeline is to return all of the paragraphs'
  content in the original order, the merge step dropping nothing at a chunk boundary; the
  docstring of \<^verbatim>\<open>merge_chunks_with_overlap\<close> says the same of the cleaned chunks.
  The code does not do so. On the text of the two paragraphs \<open>ab\<close> and \<open>ab\<close>, with one
  token per character and a budget of two tokens, the chunks are \<open>ab\<close> and \<open>ab\<close>; the
  merge takes the second chunk for a repetition of the end of the first and returns
  \<open>ab\<close>, two of the four non-whitespace characters of the input. The helper
  \<^verbatim>\<open>_find_best_overlap\<close> accepts only an overlap of more than ten characters and
  finds none between these chunks.
\<close>

theorem identity_pipeline_drops_paragraph:
  "split_text_into_chunks length (remove_references_section (str ''ab\<newline>\<newline>ab'')) 2
     = [str ''ab'', str ''ab''] \<and>
   fst (extract_text_from_pdf identity_llm length () (str ''ab\<newline>\<newline>ab'') 2) = str ''ab'' \<and>
   nonws (str ''ab\<newline>\<newline>ab'') = str ''abab'' \<and>
   find_best_overlap (str ''ab'') (str ''ab'') = []"
proof -
  have b: "find_best_overlap (str ''ab'') (str ''ab'') = []"
    by (simp add: find_best_overlap_def str_def eval_nat_numeral)
  have r: "remove_references_section (str ''ab\<newline>\<newline>ab'') = str ''ab\<newline>\<newline>ab''"
    by (simp add: remove_references_section_def REFERENCES_def str_def)
  have c: "split_text_into_chunks length (str ''ab\<newline>\<newline>ab'') 2 = [str ''ab'', str ''ab'']"
    by (simp add: chunk_eval del: py_split_nn.simps(3))
  have s: "py_strip (str ''ab'') = str ''ab''"
    by (simp add: py_strip_def str_def py_isspace_def)
  have m: "merge_chunks_with_overlap [str ''ab'', str ''ab''] 100 = str ''ab''"
    by (simp add: merge_step_def str_def py_suffix_def eval_nat_numeral)
  have n: "nonws (str ''ab\<newline>\<newline>ab'') = str ''abab''"
    by (simp add: nonws_def str_def py_isspace_def)
  have "fst (extract_text_from_pdf identity_llm length () (str ''ab\<newline>\<newline>ab'') 2) =
      merge_chunks_with_overlap (map py_strip (split_text_into_chunks length
        (remove_references_section (str ''ab\<newline>\<newline>ab'')) 2)) 100"
    by (simp only: extract_fst clean_chunks_identity fst_conv)
  also have "\<dots> = str ''ab''"
    unfolding r c using s m by simp
  finally show ?thesis using r c n b by simp
qed

lemma identity_pipeline_content_example:
  "py_strip (str ''ab '') = str ''ab'' \<and>
   sublist (str ''ab'')
     (fst (extract_text_from_pdf identity_llm length () (str ''ab \<newline>\<newline>cd'') 3)) \<and>
   nonws (fst (extract_text_from_pdf identity_llm length () (str ''ab \<newline>\<newline>cd'') 3)) = str ''abcd''"
proof -
  let ?t = "str ''ab \<newline>\<newline>cd''"
  let ?cs = "split_text_into_chunks length (remove_references_section ?t) 3"
  have r: "remove_references_section ?t = ?t"
    by (simp add: remove_references_section_def REFERENCES_def str_def)
  have c: "?cs = [str ''ab '', str ''cd'']"
    unfolding r by (simp add: chunk_eval del: py_split_nn.simps(3))
  have s: "py_strip (str ''ab '') = str ''ab''" "py_strip (str ''cd'') = str ''cd''"
    by (simp_all add: py_strip_def str_def py_isspace_def)
  have n: "nonws ?t = str ''abcd''"
    by (simp add: nonws_def str_def py_isspace_def)
  have h: "\<not> suffix (take L (py_strip (?cs ! i))) (concat (map py_strip (take i ?cs)))"
    if "0 < i" "i < length ?cs" "0 < L" "L \<le> 100" "L \<le> length (py_strip (?cs ! i))" for i L
  proof -
    from that c have i: "i = 1" by simp
    with that c s have "L = 1 \<or> L = 2" by (auto simp: str_def)
    with i c s show ?thesis by (auto simp: str_def suffix_def Cons_eq_append_conv)
  qed
  from identity_pipeline_content [of length "()" ?t 3] h c s r n show ?thesis
    by (metis list.set_intros(1))
qed

end
